theory Spec2Isabelle
  imports Main "HOL-Library.Sublist"
begin

section \<open>Strings and exceptions\<close>

text \<open>
  A Python \<open>str\<close> is modelled as a \<^typ>\<open>string\<close>, one \<^typ>\<open>char\<close> per code point; the
  alphabet is therefore the code points 0 to 255. An exception is a value: the classes the
  modelled code raises by name, and \<open>Exception\<close> for what an opaque pipeline stage raises,
  carrying its message.
\<close>

datatype exn =
    ValueError string
  | RuntimeError string
  | KeyError string
  | Exception string

text \<open>\<open>str(e)\<close>: the message; for a \<open>KeyError\<close> the \<open>repr\<close> of the key.\<close>

fun str_exn :: "exn \<Rightarrow> string" where
  "str_exn (ValueError m) = m"
| "str_exn (RuntimeError m) = m"
| "str_exn (KeyError k) = CHR 0x27 # k @ [CHR 0x27]"
| "str_exn (Exception m) = m"

text \<open>
  \<open>str.isspace\<close> on the code points below 256; \<open>str.strip()\<close> and the class \<open>\s\<close> of
  \<open>re\<close> both use it.
\<close>

definition is_space :: "char \<Rightarrow> bool" where
  "is_space c =
     (let n = (of_char c :: nat)
      in (9 \<le> n \<and> n \<le> 13) \<or> (28 \<le> n \<and> n \<le> 32) \<or> n = 133 \<or> n = 160)"

definition strip :: "string \<Rightarrow> string" where
  "strip s = rev (dropWhile is_space (rev (dropWhile is_space s)))"


section \<open>Script budget (scriptwriter.py, \<open>write_script\<close>: "Validate the dialogue")\<close>

text \<open>
  A dialogue line is a \<open>dict[str, str]\<close>. The two limits are the constants of config.py;
  the functions below take them as arguments \<open>per\<close> and \<open>tot\<close>, natural numbers.
\<close>

type_synonym line = "string \<rightharpoonup> string"

definition MAX_SCRIPT_CHARS :: nat where
  "MAX_SCRIPT_CHARS = 8000"

definition MAX_CHARS_PER_LINE :: nat where
  "MAX_CHARS_PER_LINE = 2400"

text \<open>\<open>line.get("text", "")\<close>\<close>

definition get_text :: "line \<Rightarrow> string" where
  "get_text l = (case l ''text'' of Some t \<Rightarrow> t | None \<Rightarrow> [])"

text \<open>
  The first loop: every line longer than \<open>per\<close> is cut in place to \<open>text[:per]\<close>, and
  \<open>total_chars\<close> is kept as the sum of the lengths after the cut. It returns the dialogue as
  mutated and the total.
\<close>

fun truncate_lines :: "nat \<Rightarrow> line list \<Rightarrow> nat \<Rightarrow> line list \<times> nat" where
  "truncate_lines per [] total_chars = ([], total_chars)"
| "truncate_lines per (l # ls) total_chars =
     (let text = get_text l;
          line_len = length text;
          total_chars = total_chars + line_len
      in if line_len > per
         then (case truncate_lines per ls (total_chars - line_len + per) of
                 (ls', t) \<Rightarrow> ((l(''text'' \<mapsto> take per text)) # ls', t))
         else (case truncate_lines per ls total_chars of
                 (ls', t) \<Rightarrow> (l # ls', t)))"

text \<open>
  The second loop: \<open>line["text"]\<close> raises \<open>KeyError\<close> on a line with no text; the loop breaks
  at the first line that would carry \<open>running\<close> over \<open>tot\<close>.
\<close>

fun trim_lines :: "nat \<Rightarrow> line list \<Rightarrow> nat \<Rightarrow> line list \<Rightarrow> exn + line list" where
  "trim_lines tot [] running trimmed = Inr trimmed"
| "trim_lines tot (l # ls) running trimmed =
     (case l ''text'' of
        None \<Rightarrow> Inl (KeyError ''text'')
      | Some text \<Rightarrow>
          (if running + length text > tot then Inr trimmed
           else trim_lines tot ls (running + length text) (trimmed @ [l])))"

definition validate_dialogue :: "nat \<Rightarrow> nat \<Rightarrow> line list \<Rightarrow> exn + line list" where
  "validate_dialogue per tot dialogue =
     (case truncate_lines per dialogue 0 of
        (dialogue', total_chars) \<Rightarrow>
          if total_chars > tot then trim_lines tot dialogue' 0 [] else Inr dialogue')"

text \<open>The budget enforcer in the words of the specification, to compare with the code.\<close>

definition spec_truncate :: "nat \<Rightarrow> line \<Rightarrow> line" where
  "spec_truncate per_record_limit r =
     (if length (get_text r) > per_record_limit
      then r(''text'' \<mapsto> take per_record_limit (get_text r)) else r)"

fun spec_walk :: "nat \<Rightarrow> nat \<Rightarrow> line list \<Rightarrow> line list" where
  "spec_walk total_limit running [] = []"
| "spec_walk total_limit running (r # rs) =
     (if running + length (get_text r) \<le> total_limit
      then r # spec_walk total_limit (running + length (get_text r)) rs
      else [])"

definition spec_enforce :: "nat \<Rightarrow> nat \<Rightarrow> line list \<Rightarrow> line list" where
  "spec_enforce per_record_limit total_limit records =
     spec_walk total_limit 0 (map (spec_truncate per_record_limit) records)"

definition total_text :: "line list \<Rightarrow> nat" where
  "total_text ls = sum_list (map (\<lambda>l. length (get_text l)) ls)"


section \<open>JSON values and the decoder \<open>json.loads\<close>\<close>

text \<open>
  The extractors call the standard library's \<open>json.loads\<close>. They are modelled over any
  decoder \<open>loads\<close>, a function from the text to the decoded value, with \<open>None\<close> for
  \<open>JSONDecodeError\<close>; the general theorems hold for every decoder. The concrete examples
  instantiate it with \<open>json_loads\<close> below, a decoder for the JSON grammar as
  \<open>json.loads\<close> reads it: whitespace is space, tab, line feed and carriage return; the
  literals are \<open>null\<close>, \<open>true\<close>, \<open>false\<close>, \<open>NaN\<close>, \<open>Infinity\<close> and \<open>-Infinity\<close>;
  a string may not hold a raw control character. Two things are kept abstract in the
  decoded value: a number with a fraction or an exponent is kept as its text (Python
  builds a float), and an object is the list of its members in source order (Python
  builds a dict, where a repeated key keeps its last value). An escape \<open>\uXXXX\<close> above
  code point 255 lies outside the alphabet of this model and is refused here.
\<close>

datatype json =
    JNull
  | JBool bool
  | JInt int
  | JFloat string
  | JStr string
  | JArr "json list"
  | JObj "(string \<times> json) list"

text \<open>
  The lexer is one pass over the characters. A maximal run of letters, digits, signs and
  dots is one atom (a literal or a number), classified afterwards: where the run is not
  exactly one literal or one number, Python's scanner also fails, at the run's start or
  at the character that follows the part it could read.
\<close>

datatype token = LBrack | RBrack | LBrace | RBrace | Comma | Colon | Str string | Atom string

datatype lexmode = Between | InAtom string | InStr string | InEsc string | InUni string string | Bad

definition json_ws :: "char \<Rightarrow> bool" where
  "json_ws c = (c = CHR '' '' \<or> c = CHR 0x09 \<or> c = CHR 0x0A \<or> c = CHR 0x0D)"

definition punct :: "char \<Rightarrow> token option" where
  "punct c =
     (if c = CHR ''['' then Some LBrack else if c = CHR '']'' then Some RBrack
      else if c = CHR ''{'' then Some LBrace else if c = CHR ''}'' then Some RBrace
      else if c = CHR '','' then Some Comma else if c = CHR '':'' then Some Colon
      else None)"

definition between_chars :: "char \<Rightarrow> char \<Rightarrow> char \<Rightarrow> bool" where
  "between_chars lo hi c = ((of_char lo :: nat) \<le> of_char c \<and> (of_char c :: nat) \<le> of_char hi)"

definition is_digit :: "char \<Rightarrow> bool" where
  "is_digit c = between_chars (CHR ''0'') (CHR ''9'') c"

definition atom_char :: "char \<Rightarrow> bool" where
  "atom_char c =
     (is_digit c \<or> between_chars (CHR ''a'') (CHR ''z'') c \<or> between_chars (CHR ''A'') (CHR ''Z'') c
      \<or> c = CHR ''-'' \<or> c = CHR ''+'' \<or> c = CHR ''.'')"

definition hex_val :: "char \<Rightarrow> nat option" where
  "hex_val c =
     (if is_digit c then Some (of_char c - 48)
      else if between_chars (CHR ''a'') (CHR ''f'') c then Some (of_char c - 87)
      else if between_chars (CHR ''A'') (CHR ''F'') c then Some (of_char c - 55)
      else None)"

definition unescape :: "char \<Rightarrow> char option" where
  "unescape c =
     (if c = CHR 0x22 \<or> c = CHR 0x5C \<or> c = CHR ''/'' then Some c
      else if c = CHR ''b'' then Some (CHR 0x08) else if c = CHR ''f'' then Some (CHR 0x0C)
      else if c = CHR ''n'' then Some (CHR 0x0A) else if c = CHR ''r'' then Some (CHR 0x0D)
      else if c = CHR ''t'' then Some (CHR 0x09) else None)"

definition between :: "token list \<Rightarrow> char \<Rightarrow> lexmode \<times> token list" where
  "between ts c =
     (if json_ws c then (Between, ts)
      else case punct c of
        Some t \<Rightarrow> (Between, t # ts)
      | None \<Rightarrow>
          if c = CHR 0x22 then (InStr [], ts)
          else if atom_char c then (InAtom [c], ts)
          else (Bad, ts))"

fun hex4 :: "string \<Rightarrow> nat option" where
  "hex4 [a, b, c, d] =
     (case (hex_val a, hex_val b, hex_val c, hex_val d) of
        (Some w, Some x, Some y, Some z) \<Rightarrow> Some (((w * 16 + x) * 16 + y) * 16 + z)
      | _ \<Rightarrow> None)"
| "hex4 _ = None"

fun lex_step :: "lexmode \<times> token list \<Rightarrow> char \<Rightarrow> lexmode \<times> token list" where
  "lex_step (Between, ts) c = between ts c"
| "lex_step (InAtom a, ts) c =
     (if atom_char c then (InAtom (c # a), ts) else between (Atom (rev a) # ts) c)"
| "lex_step (InStr a, ts) c =
     (if c = CHR 0x22 then (Between, Str (rev a) # ts)
      else if c = CHR 0x5C then (InEsc a, ts)
      else if (of_char c :: nat) < 32 then (Bad, ts)
      else (InStr (c # a), ts))"
| "lex_step (InEsc a, ts) c =
     (case unescape c of
        Some d \<Rightarrow> (InStr (d # a), ts)
      | None \<Rightarrow> if c = CHR ''u'' then (InUni a [], ts) else (Bad, ts))"
| "lex_step (InUni a h, ts) c =
     (if length h < 3 then (InUni a (h @ [c]), ts)
      else case hex4 (h @ [c]) of
        Some n \<Rightarrow> if n < 256 then (InStr (char_of n # a), ts) else (Bad, ts)
      | None \<Rightarrow> (Bad, ts))"
| "lex_step (Bad, ts) c = (Bad, ts)"

definition lex :: "string \<Rightarrow> token list option" where
  "lex s =
     (case foldl lex_step (Between, []) s of
        (Between, ts) \<Rightarrow> Some (rev ts)
      | (InAtom a, ts) \<Rightarrow> Some (rev (Atom (rev a) # ts))
      | _ \<Rightarrow> None)"

text \<open>A number: \<open>-?(0|[1-9]\d*)(\.\d+)?([eE][-+]?\d+)?\<close>.\<close>

definition digits_val :: "string \<Rightarrow> nat" where
  "digits_val ds = foldl (\<lambda>n c. 10 * n + (of_char c - 48)) 0 ds"

definition frac_ok :: "string \<Rightarrow> string option" where
  "frac_ok r =
     (case r of
        c # r' \<Rightarrow>
          if c = CHR ''.'' then
            (if takeWhile is_digit r' = [] then None else Some (dropWhile is_digit r'))
          else Some r
      | [] \<Rightarrow> Some r)"

definition exp_ok :: "string \<Rightarrow> bool" where
  "exp_ok r =
     (case r of
        [] \<Rightarrow> True
      | c # r' \<Rightarrow>
          (c = CHR ''e'' \<or> c = CHR ''E'') \<and>
          (let d = (case r' of s # r'' \<Rightarrow> if s = CHR ''+'' \<or> s = CHR ''-'' then r'' else r' | [] \<Rightarrow> r')
           in d \<noteq> [] \<and> (\<forall>x \<in> set d. is_digit x)))"

definition number :: "string \<Rightarrow> json option" where
  "number a =
     (let neg = (a \<noteq> [] \<and> hd a = CHR ''-'');
          u = (if neg then tl a else a);
          ip = takeWhile is_digit u;
          r = dropWhile is_digit u
      in if ip = [] \<or> (hd ip = CHR ''0'' \<and> length ip > 1) then None
         else if r = [] then Some (JInt (if neg then - int (digits_val ip) else int (digits_val ip)))
         else (case frac_ok r of None \<Rightarrow> None | Some r' \<Rightarrow> if exp_ok r' then Some (JFloat a) else None))"

definition atom_value :: "string \<Rightarrow> json option" where
  "atom_value a =
     (if a = ''null'' then Some JNull
      else if a = ''true'' then Some (JBool True)
      else if a = ''false'' then Some (JBool False)
      else if a = ''NaN'' \<or> a = ''Infinity'' \<or> a = ''-Infinity'' then Some (JFloat a)
      else number a)"

text \<open>
  The parser is a pushdown automaton over the tokens: the stack holds the arrays and
  objects that are still open, innermost first.
\<close>

datatype frame = ArrF "json list" | ObjF "(string \<times> json) list" | KeyF "(string \<times> json) list" string

datatype pstate =
    PValue "frame list"
  | PFirst "frame list"
  | PAfter "frame list"
  | PKey0 "frame list"
  | PKey "frame list"
  | PColon "frame list"
  | PDone json
  | PErr

fun deliver :: "json \<Rightarrow> frame list \<Rightarrow> pstate" where
  "deliver v [] = PDone v"
| "deliver v (ArrF js # st) = PAfter (ArrF (v # js) # st)"
| "deliver v (KeyF ms k # st) = PAfter (ObjF ((k, v) # ms) # st)"
| "deliver v (ObjF ms # st) = PErr"

fun start_value :: "frame list \<Rightarrow> token \<Rightarrow> pstate" where
  "start_value st (Str s) = deliver (JStr s) st"
| "start_value st (Atom a) = (case atom_value a of Some v \<Rightarrow> deliver v st | None \<Rightarrow> PErr)"
| "start_value st LBrack = PFirst (ArrF [] # st)"
| "start_value st LBrace = PKey0 (ObjF [] # st)"
| "start_value st _ = PErr"

fun pstep :: "pstate \<Rightarrow> token \<Rightarrow> pstate" where
  "pstep (PValue st) t = start_value st t"
| "pstep (PFirst (ArrF js # st)) RBrack = deliver (JArr []) st"
| "pstep (PFirst st) t = start_value st t"
| "pstep (PAfter (ArrF js # st)) Comma = PValue (ArrF js # st)"
| "pstep (PAfter (ArrF js # st)) RBrack = deliver (JArr (rev js)) st"
| "pstep (PAfter (ObjF ms # st)) Comma = PKey (ObjF ms # st)"
| "pstep (PAfter (ObjF ms # st)) RBrace = deliver (JObj (rev ms)) st"
| "pstep (PKey0 (ObjF ms # st)) RBrace = deliver (JObj []) st"
| "pstep (PKey0 (ObjF ms # st)) (Str k) = PColon (KeyF ms k # st)"
| "pstep (PKey (ObjF ms # st)) (Str k) = PColon (KeyF ms k # st)"
| "pstep (PColon st) Colon = PValue st"
| "pstep _ _ = PErr"

definition json_loads :: "string \<Rightarrow> json option" where
  "json_loads s =
     (case lex s of
        None \<Rightarrow> None
      | Some ts \<Rightarrow> (case foldl pstep (PValue []) ts of PDone v \<Rightarrow> Some v | _ \<Rightarrow> None))"


section \<open>The two regular-expression searches\<close>

text \<open>
  \<open>re.search(r"```(?:json)?\s*(\[.*?\])\s*```", raw, re.DOTALL)\<close>, group 1.
  \<open>fence_at\<close> tries the pattern at one start position. After the opening fence the
  greedy \<open>(?:json)?\<close> and \<open>\s*\<close> leave no choice (the character that follows must be
  \<open>[\<close>, which is neither a space nor the letter j), so the only backtracking is that of
  the lazy \<open>.*?\<close>: \<open>lazy_close\<close> extends the group one character at a time and stops at
  the first \<open>]\<close> that is followed by spaces and the closing fence. \<open>fence_search\<close> tries
  the start positions from left to right.
\<close>

definition after_prefix :: "string \<Rightarrow> string \<Rightarrow> string option" where
  "after_prefix p s = (if take (length p) s = p then Some (drop (length p) s) else None)"

fun lazy_close :: "string \<Rightarrow> string \<Rightarrow> string option" where
  "lazy_close acc [] = None"
| "lazy_close acc (c # cs) =
     (if c = CHR '']'' \<and> after_prefix ''```'' (dropWhile is_space cs) \<noteq> None
      then Some (rev (c # acc))
      else lazy_close (c # acc) cs)"

definition fence_at :: "string \<Rightarrow> string option" where
  "fence_at s =
     (case after_prefix ''```'' s of
        None \<Rightarrow> None
      | Some r \<Rightarrow>
          (case dropWhile is_space (case after_prefix ''json'' r of Some r' \<Rightarrow> r' | None \<Rightarrow> r) of
             [] \<Rightarrow> None
           | c # cs \<Rightarrow> if c = CHR ''['' then lazy_close [c] cs else None))"

fun fence_search :: "string \<Rightarrow> string option" where
  "fence_search [] = None"
| "fence_search (c # cs) =
     (case fence_at (c # cs) of Some g \<Rightarrow> Some g | None \<Rightarrow> fence_search cs)"

text \<open>
  \<open>re.search(r"\[.*\]", raw, re.DOTALL)\<close>, group 0: with the greedy \<open>.*\<close>, the span from
  the first \<open>[\<close> of the text to the last \<open>]\<close> after it.
\<close>

definition bracket_search :: "string \<Rightarrow> string option" where
  "bracket_search s =
     (case dropWhile (\<lambda>c. c \<noteq> CHR ''['') s of
        [] \<Rightarrow> None
      | b # r \<Rightarrow>
          (case dropWhile (\<lambda>c. c \<noteq> CHR '']'') (rev r) of
             [] \<Rightarrow> None
           | e # m \<Rightarrow> Some (b # rev (e # m))))"

section \<open>The extractors (scriptwriter.py \<open>_extract_json\<close>, orchestrator.py \<open>_extract_queries\<close>)\<close>

text \<open>
  \<open>as_list\<close> is the first attempt of both functions: \<open>json.loads(raw)\<close>, kept only when
  \<open>isinstance(data, list)\<close>. \<open>try_fence\<close> and \<open>try_bracket\<close> are the second and third
  attempts, the same in both functions: they return whatever the decoder gives for the
  matched group. The result is \<open>Inl\<close> of the \<open>ValueError\<close> raised at the end, or \<open>Inr\<close> of
  the returned value.
\<close>

definition as_list :: "json option \<Rightarrow> json list option" where
  "as_list r = (case r of Some (JArr data) \<Rightarrow> Some data | _ \<Rightarrow> None)"

definition try_fence :: "(string \<Rightarrow> json option) \<Rightarrow> string \<Rightarrow> json option" where
  "try_fence loads raw = (case fence_search raw of None \<Rightarrow> None | Some g \<Rightarrow> loads g)"

definition try_bracket :: "(string \<Rightarrow> json option) \<Rightarrow> string \<Rightarrow> json option" where
  "try_bracket loads raw = (case bracket_search raw of None \<Rightarrow> None | Some g \<Rightarrow> loads g)"

definition dialogue_error :: exn where
  "dialogue_error = ValueError ''Could not extract valid JSON dialogue from LLM response.''"

definition queries_error :: exn where
  "queries_error = ValueError ''Could not extract search queries from LLM response.''"

definition extract_json :: "(string \<Rightarrow> json option) \<Rightarrow> string \<Rightarrow> exn + json" where
  "extract_json loads raw =
     (case as_list (loads raw) of
        Some data \<Rightarrow> Inr (JArr data)
      | None \<Rightarrow>
          (case try_fence loads raw of
             Some v \<Rightarrow> Inr v
           | None \<Rightarrow>
               (case try_bracket loads raw of
                  Some v \<Rightarrow> Inr v
                | None \<Rightarrow>
                    Inl dialogue_error)))"

text \<open>
  \<open>str(q)\<close>: a string is itself; the text of any other value is given by \<open>repr\<close>, a
  parameter.
\<close>

fun py_str :: "(json \<Rightarrow> string) \<Rightarrow> json \<Rightarrow> string" where
  "py_str repr (JStr s) = s"
| "py_str repr v = repr v"

definition extract_queries :: "(string \<Rightarrow> json option) \<Rightarrow> (json \<Rightarrow> string) \<Rightarrow> string \<Rightarrow> exn + json" where
  "extract_queries loads repr raw =
     (case as_list (loads raw) of
        Some data \<Rightarrow> Inr (JArr (map (\<lambda>q. JStr (py_str repr q)) data))
      | None \<Rightarrow>
          (case try_fence loads raw of
             Some v \<Rightarrow> Inr v
           | None \<Rightarrow>
               (case try_bracket loads raw of
                  Some v \<Rightarrow> Inr v
                | None \<Rightarrow>
                    Inl queries_error)))"


section \<open>The pipeline (orchestrator.py, \<open>run\<close>)\<close>

text \<open>
  The five stages are opaque: each is a parameter that returns its value or raises.
  \<open>call_flash\<close> is the call made with the query prompt, as a function of the topic. A
  \<open>pathlib.Path\<close> is the list of its components. \<open>run\<close> returns the stages it has entered,
  in order, beside its result; its \<open>print\<close> calls are the \<open>Print\<close> steps of the server
  model below.
\<close>

type_synonym page = "string \<rightharpoonup> string"

type_synonym path = "string list"

datatype stage = Query_generation | Research | Summarization | Scriptwriting | Production

record stages =
  call_flash :: "string \<Rightarrow> exn + string"
  research :: "json \<Rightarrow> exn + page list"
  summarise :: "string \<Rightarrow> page list \<Rightarrow> exn + string"
  write_script :: "string \<Rightarrow> string \<Rightarrow> exn + line list"
  produce :: "line list \<Rightarrow> exn + path"

definition run ::
  "stages \<Rightarrow> (string \<Rightarrow> json option) \<Rightarrow> (json \<Rightarrow> string) \<Rightarrow> string \<Rightarrow> stage list \<times> (exn + path)"
where
  "run st loads repr topic =
     (case call_flash st topic of
        Inl e \<Rightarrow> ([Query_generation], Inl e)
      | Inr raw_queries \<Rightarrow>
     (case extract_queries loads repr raw_queries of
        Inl e \<Rightarrow> ([Query_generation], Inl e)
      | Inr queries \<Rightarrow>
     (case research st queries of
        Inl e \<Rightarrow> ([Query_generation, Research], Inl e)
      | Inr research_data \<Rightarrow>
     if research_data = []
     then ([Query_generation, Research], Inl (RuntimeError ''Research stage returned no data.''))
     else
     (case summarise st topic research_data of
        Inl e \<Rightarrow> ([Query_generation, Research, Summarization], Inl e)
      | Inr report \<Rightarrow>
     (case write_script st topic report of
        Inl e \<Rightarrow> ([Query_generation, Research, Summarization, Scriptwriting], Inl e)
      | Inr dialogue \<Rightarrow>
     (case produce st dialogue of
        Inl e \<Rightarrow>
          ([Query_generation, Research, Summarization, Scriptwriting, Production], Inl e)
      | Inr output_path \<Rightarrow>
          ([Query_generation, Research, Summarization, Scriptwriting, Production],
           Inr output_path)))))))"


section \<open>The web server (server.py)\<close>

text \<open>
  The state of the process: the two module-level dicts \<open>_JOBS\<close> and \<open>_status_queues\<close>, the
  position of every job's \<open>_run\<close> thread, and the open status streams with what each has
  sent. A \<open>queue.Queue(maxsize=500)\<close> is the list of its items, oldest first.
\<close>

type_synonym job_id = string

record job =
  status :: string
  result :: "string option"
  error :: "string option"

text \<open>
  Where a \<open>_run\<close> thread stands: inside \<open>run(topic)\<close>; before each of the two assignments of
  the \<open>try\<close> block, holding the returned path; before each of the two assignments of the
  \<open>except\<close> block, holding the exception caught; in the \<open>finally\<close> block, before the \<open>put\<close>;
  and finished. The last two hold the exception that is leaving the function, if any.
\<close>

datatype pc =
    Run_pipeline string
  | Set_status_done path
  | Set_result path
  | Set_status_error exn
  | Set_error exn
  | Put_done "exn option"
  | Exited "exn option"

text \<open>The dict given to \<open>json.dumps\<close> in each \<open>yield\<close> of \<open>event_stream\<close>.\<close>

datatype event =
    Log string
  | Keepalive
  | Complete string "string option" "string option"

datatype stream_state = NOT_STARTED | AWAIT | CLOSED

record stream =
  stream_job :: job_id
  stream_state :: stream_state
  sent :: "event list"

record server =
  JOBS :: "job_id \<rightharpoonup> job"
  status_queues :: "job_id \<rightharpoonup> string list"
  threads :: "job_id \<rightharpoonup> pc"
  streams :: "nat \<rightharpoonup> stream"

definition initial :: server where
  "initial = \<lparr>JOBS = Map.empty, status_queues = Map.empty, threads = Map.empty,
              streams = Map.empty\<rparr>"

definition maxsize :: nat where
  "maxsize = 500"

definition DONE :: string where
  "DONE = ''__DONE__''"

text \<open>\<open>q.put_nowait(item)\<close>; \<open>None\<close> is \<open>queue.Full\<close>.\<close>

definition put_nowait :: "string \<Rightarrow> string list \<Rightarrow> string list option" where
  "put_nowait item q = (if length q < maxsize then Some (q @ [item]) else None)"

text \<open>
  \<open>_TeeWriter.write\<close> (\<open>tee_write\<close>): the body of its loop, and the loop over
  \<open>list(_status_queues.values())\<close>. The write to the original stdout is not part of the
  state.
\<close>

definition tee :: "string \<Rightarrow> string list \<Rightarrow> string list" where
  "tee item q = (case put_nowait item q of Some q' \<Rightarrow> q' | None \<Rightarrow> q)"

definition tee_write :: "string \<Rightarrow> server \<Rightarrow> server" where
  "tee_write text s =
     (if strip text \<noteq> []
      then s\<lparr>status_queues := (\<lambda>j. map_option (tee (strip text)) (status_queues s j))\<rparr>
      else s)"

text \<open>
  An HTTP response with a JSON body of one member: the status code, the key, the value.
\<close>

datatype response = Json nat string string

text \<open>
  \<open>generate\<close>: \<open>data_topic\<close> is \<open>data.get("topic", "")\<close> and \<open>job_id\<close> the identifier drawn,
  \<open>str(uuid.uuid4())[:8]\<close>. Starting the thread puts it at the call of \<open>run\<close>.
  The two dict entries and the start of the thread are taken as one step.
\<close>

definition generate :: "string \<Rightarrow> job_id \<Rightarrow> server \<Rightarrow> response \<times> server" where
  "generate data_topic job_id s =
     (let topic = strip data_topic
      in if topic = [] then (Json 400 ''error'' ''Topic is required.'', s)
         else (Json 202 ''job_id'' job_id,
               s\<lparr>JOBS := (JOBS s)(job_id \<mapsto> \<lparr>status = ''running'', result = None, error = None\<rparr>),
                 status_queues := (status_queues s)(job_id \<mapsto> []),
                 threads := (threads s)(job_id \<mapsto> Run_pipeline topic)\<rparr>))"

text \<open>\<open>_JOBS[job_id][key] = value\<close>; \<open>KeyError\<close> when the job is not in the dict.\<close>

definition set_item :: "job_id \<Rightarrow> (job \<Rightarrow> job) \<Rightarrow> server \<Rightarrow> exn + server" where
  "set_item job_id f s =
     (case JOBS s job_id of
        None \<Rightarrow> Inl (KeyError job_id)
      | Some job \<Rightarrow> Inr (s\<lparr>JOBS := (JOBS s)(job_id \<mapsto> f job)\<rparr>))"

definition path_name :: "path \<Rightarrow> string" where
  "path_name p = (if p = [] then [] else last p)"

definition goto :: "job_id \<Rightarrow> pc \<Rightarrow> server \<Rightarrow> server" where
  "goto job_id p s = s\<lparr>threads := (threads s)(job_id \<mapsto> p)\<rparr>"

text \<open>
  The next statement of \<open>_run\<close>. An exception in the \<open>try\<close> block enters the \<open>except\<close> block;
  one in the \<open>except\<close> block leaves the function through the \<open>finally\<close> block. \<open>None\<close>: the
  thread cannot move by itself (it is inside \<open>run\<close>, it has finished, or its blocking
  \<open>q.put\<close> waits for room in the queue).
\<close>

fun runner :: "job_id \<Rightarrow> pc \<Rightarrow> server \<Rightarrow> server option" where
  "runner job_id (Run_pipeline topic) s = None"
| "runner job_id (Set_status_done output_path) s =
     Some (case set_item job_id (\<lambda>job. job\<lparr>status := ''done''\<rparr>) s of
             Inr s' \<Rightarrow> goto job_id (Set_result output_path) s'
           | Inl e \<Rightarrow> goto job_id (Set_status_error e) s)"
| "runner job_id (Set_result output_path) s =
     Some (case set_item job_id (\<lambda>job. job\<lparr>result := Some (path_name output_path)\<rparr>) s of
             Inr s' \<Rightarrow> goto job_id (Put_done None) s'
           | Inl e \<Rightarrow> goto job_id (Set_status_error e) s)"
| "runner job_id (Set_status_error e) s =
     Some (case set_item job_id (\<lambda>job. job\<lparr>status := ''error''\<rparr>) s of
             Inr s' \<Rightarrow> goto job_id (Set_error e) s'
           | Inl e' \<Rightarrow> goto job_id (Put_done (Some e')) s)"
| "runner job_id (Set_error e) s =
     Some (case set_item job_id (\<lambda>job. job\<lparr>error := Some (str_exn e)\<rparr>) s of
             Inr s' \<Rightarrow> goto job_id (Put_done None) s'
           | Inl e' \<Rightarrow> goto job_id (Put_done (Some e')) s)"
| "runner job_id (Put_done x) s =
     (case status_queues s job_id of
        None \<Rightarrow> Some (goto job_id (Exited x) s)
      | Some q \<Rightarrow>
          if length q < maxsize
          then Some (goto job_id (Exited x)
                       (s\<lparr>status_queues := (status_queues s)(job_id \<mapsto> q @ [DONE])\<rparr>))
          else None)"
| "runner job_id (Exited x) s = None"

text \<open>\<open>status_stream\<close>: the 404 response, or the generator object, not yet started.\<close>

definition status_stream :: "job_id \<Rightarrow> server \<Rightarrow> response + stream" where
  "status_stream job_id s =
     (if JOBS s job_id = None then Inl (Json 404 ''error'' ''Unknown job.'')
      else Inr \<lparr>stream_job = job_id, stream_state = NOT_STARTED, sent = []\<rparr>)"

text \<open>
  One resumption of the generator \<open>event_stream\<close>, up to its next \<open>yield\<close> or its end. The
  queue is looked up by the job identifier each time (the code keeps the object it found
  first; no entry of \<open>_status_queues\<close> is ever replaced or removed). \<open>q.get(timeout=120)\<close>
  on an empty queue is taken at the moment its timeout expires. After the \<open>complete\<close>
  event only the \<open>break\<close> remains, so the stream is closed from then on.
\<close>

datatype resumed = Yield event | StopIteration | Raises exn

definition resumed_events :: "resumed \<Rightarrow> event list" where
  "resumed_events r = (case r of Yield e \<Rightarrow> [e] | _ \<Rightarrow> [])"

definition iteration :: "job_id \<Rightarrow> string list \<Rightarrow> server \<Rightarrow> resumed \<times> stream_state \<times> server" where
  "iteration job_id q s =
     (case q of
        [] \<Rightarrow> (Yield Keepalive, AWAIT, s)
      | line # rest \<Rightarrow>
          (let s' = s\<lparr>status_queues := (status_queues s)(job_id \<mapsto> rest)\<rparr>
           in if line = DONE
              then (case JOBS s job_id of
                      None \<Rightarrow> (Raises (KeyError job_id), CLOSED, s')
                    | Some job \<Rightarrow>
                        (Yield (Complete (status job) (result job) (error job)), CLOSED, s'))
              else (Yield (Log line), AWAIT, s')))"

definition event_stream :: "stream \<Rightarrow> server \<Rightarrow> resumed \<times> stream \<times> server" where
  "event_stream st s =
     (if stream_state st = CLOSED then (StopIteration, st, s)
      else case status_queues s (stream_job st) of
        None \<Rightarrow> (StopIteration, st\<lparr>stream_state := CLOSED\<rparr>, s)
      | Some q \<Rightarrow>
          (case iteration (stream_job st) q s of
             (r, state, s') \<Rightarrow>
               (r, st\<lparr>stream_state := state, sent := sent st @ resumed_events r\<rparr>, s')))"

text \<open>
  What can happen next in the process. \<open>Generate\<close> is a request to \<open>/api/generate\<close> with
  the identifier drawn for it, which is new; \<open>Print\<close> is one \<open>write\<close> to \<open>sys.stdout\<close> made
  inside the job's \<open>run\<close>; \<open>Pipeline\<close> is the end of the job's \<open>run\<close>, by a return or an
  exception; \<open>Runner\<close> is the next statement of the job's \<open>_run\<close>; \<open>Connect\<close> is a request to
  \<open>/api/status/<job_id>\<close> on a new connection; \<open>Next\<close> resumes a connection's generator.
\<close>

datatype label =
    Generate string job_id
  | Print job_id string
  | Pipeline job_id "exn + path"
  | Runner job_id
  | Connect nat job_id
  | Next nat

definition in_pipeline :: "server \<Rightarrow> job_id \<Rightarrow> bool" where
  "in_pipeline s job_id = (case threads s job_id of Some (Run_pipeline topic) \<Rightarrow> True | _ \<Rightarrow> False)"

fun fire :: "label \<Rightarrow> server \<Rightarrow> server option" where
  "fire (Generate data_topic job_id) s =
     (if JOBS s job_id = None then Some (snd (generate data_topic job_id s)) else None)"
| "fire (Print job_id text) s =
     (if in_pipeline s job_id then Some (tee_write text s) else None)"
| "fire (Pipeline job_id outcome) s =
     (if in_pipeline s job_id
      then Some (goto job_id (case outcome of
                                Inr output_path \<Rightarrow> Set_status_done output_path
                              | Inl e \<Rightarrow> Set_status_error e) s)
      else None)"
| "fire (Runner job_id) s =
     (case threads s job_id of None \<Rightarrow> None | Some p \<Rightarrow> runner job_id p s)"
| "fire (Connect c job_id) s =
     (if streams s c = None
      then (case status_stream job_id s of
              Inl r \<Rightarrow> Some s
            | Inr st \<Rightarrow> Some (s\<lparr>streams := (streams s)(c \<mapsto> st)\<rparr>))
      else None)"
| "fire (Next c) s =
     (case streams s c of
        None \<Rightarrow> None
      | Some st \<Rightarrow>
          (case event_stream st s of
             (r, st', s') \<Rightarrow> Some (s'\<lparr>streams := (streams s')(c \<mapsto> st')\<rparr>)))"

fun exec :: "label list \<Rightarrow> server \<Rightarrow> server option" where
  "exec [] s = Some s"
| "exec (l # ls) s = (case fire l s of None \<Rightarrow> None | Some s' \<Rightarrow> exec ls s')"

inductive reachable :: "server \<Rightarrow> bool" where
  start: "reachable initial"
| step: "reachable s \<Longrightarrow> fire l s = Some s' \<Longrightarrow> reachable s'"

definition all_stages :: "stage list" where
  "all_stages = [Query_generation, Research, Summarization, Scriptwriting, Production]"

text \<open>Stage behaviours for the examples: every stage succeeds but the summarizer, which is given.\<close>

definition demo :: "(exn + string) \<Rightarrow> stages" where
  "demo s = \<lparr>call_flash = (\<lambda>t. Inr ''[\"q\"]''),
            research = (\<lambda>q. Inr [[''url'' \<mapsto> ''u'', ''title'' \<mapsto> ''t'', ''text'' \<mapsto> ''x'']]),
            summarise = (\<lambda>t r. s),
            write_script = (\<lambda>t r. Inr [[''speaker'' \<mapsto> ''Host'', ''text'' \<mapsto> ''hi'']]),
            produce = (\<lambda>d. Inr [''output'', ''podcast.mp3''])\<rparr>"

section \<open>Invariants of the server\<close>

text \<open>
  A job is final when exactly one of result and error is set, with the matching status.
\<close>

definition final :: "job \<Rightarrow> bool" where
  "final job =
     ((status job = ''done'' \<and> result job \<noteq> None \<and> error job = None)
      \<or> (status job = ''error'' \<and> result job = None \<and> error job \<noteq> None))"

definition fresh_job :: job where
  "fresh_job = \<lparr>status = ''running'', result = None, error = None\<rparr>"

text \<open>What the job's entry holds while its thread stands at a position of \<open>_run\<close>.\<close>

fun job_at :: "pc \<Rightarrow> job \<Rightarrow> bool" where
  "job_at (Run_pipeline topic) job = (job = fresh_job)"
| "job_at (Set_status_done p) job = (job = fresh_job)"
| "job_at (Set_result p) job = (job = fresh_job\<lparr>status := ''done''\<rparr>)"
| "job_at (Set_status_error e) job = (job = fresh_job)"
| "job_at (Set_error e) job = (job = fresh_job\<lparr>status := ''error''\<rparr>)"
| "job_at (Put_done x) job = (x = None \<and> final job)"
| "job_at (Exited x) job = (x = None \<and> final job)"

text \<open>
  The three maps have the same keys, and every job's entry is the one its thread's
  position calls for.
\<close>

definition consistent :: "server \<Rightarrow> bool" where
  "consistent s =
     ((\<forall>j. threads s j = None \<longrightarrow> JOBS s j = None \<and> status_queues s j = None)
      \<and> (\<forall>j p. threads s j = Some p \<longrightarrow>
            (\<exists>job q. JOBS s j = Some job \<and> job_at p job \<and> status_queues s j = Some q)))"

definition is_complete :: "event \<Rightarrow> bool" where
  "is_complete e = (case e of Complete a b c \<Rightarrow> True | _ \<Rightarrow> False)"

text \<open>
  What a stream has sent: nothing before it starts, no \<open>complete\<close> event while it waits,
  and once closed exactly one, the last event; never a log event with the marker.
\<close>

definition stream_ok :: "server \<Rightarrow> stream \<Rightarrow> bool" where
  "stream_ok s st =
     (JOBS s (stream_job st) \<noteq> None
      \<and> Log DONE \<notin> set (sent st)
      \<and> (case stream_state st of
            NOT_STARTED \<Rightarrow> sent st = []
          | AWAIT \<Rightarrow> \<not> list_ex is_complete (sent st)
          | CLOSED \<Rightarrow> sent st \<noteq> [] \<and> is_complete (last (sent st))
                       \<and> \<not> list_ex is_complete (butlast (sent st))))"

definition invariant :: "server \<Rightarrow> bool" where
  "invariant s = (consistent s \<and> (\<forall>c st. streams s c = Some st \<longrightarrow> stream_ok s st))"


text \<open>
  For executions in which no pipeline prints the marker text: the marker stands on a
  job's queue only after the job's thread has finished, and every \<open>complete\<close> event
  sent carries a final entry.
\<close>

definition prints_marker :: "label \<Rightarrow> bool" where
  "prints_marker l = (case l of Print k t \<Rightarrow> strip t = DONE | _ \<Rightarrow> False)"

definition final_event :: "event \<Rightarrow> bool" where
  "final_event e =
     (case e of
        Complete a b d \<Rightarrow> final \<lparr>status = a, result = b, error = d\<rparr>
      | _ \<Rightarrow> True)"

definition marker_ok :: "server \<Rightarrow> bool" where
  "marker_ok s =
     ((\<forall>j q. status_queues s j = Some q \<and> DONE \<in> set q \<longrightarrow> (\<exists>x. threads s j = Some (Exited x)))
      \<and> (\<forall>c st. streams s c = Some st \<longrightarrow> list_all final_event (sent st)))"

section \<open>Example executions\<close>

text \<open>Two jobs are submitted.\<close>

definition two_jobs :: "label list" where
  "two_jobs = [Generate ''bats'' ''A'', Generate ''owls'' ''B'']"

text \<open>One job prints a line, fails, and its thread runs to the end.\<close>

definition failed_job :: "label list" where
  "failed_job = [Generate ''bats'' ''A'', Print ''A'' ''step 1'',
                 Pipeline ''A'' (Inl (Exception ''boom'')), Runner ''A'', Runner ''A'', Runner ''A'']"

text \<open>The same, then a client opens the status stream and reads two events.\<close>

definition watched_job :: "label list" where
  "watched_job = failed_job @ [Connect 0 ''A'', Next 0, Next 0]"

text \<open>A job prints the marker text while it runs, and a client connects.\<close>

definition marker_printed :: "label list" where
  "marker_printed = [Generate ''bats'' ''A'', Print ''A'' '' __DONE__ '', Connect 0 ''A'']"

text \<open>Job A fails before printing anything and its thread finishes; then job B prints.\<close>

definition overtaken :: "label list" where
  "overtaken = [Generate ''bats'' ''A'', Generate ''owls'' ''B'',
                Pipeline ''A'' (Inl (Exception ''boom'')), Runner ''A'', Runner ''A'', Runner ''A'',
                Print ''B'' ''step 1'']"

text \<open>A job prints 500 lines that nobody reads, then fails; its thread reaches the \<open>finally\<close> block.\<close>

definition flooded :: "label list" where
  "flooded = [Generate ''bats'' ''A''] @ replicate 500 (Print ''A'' ''x'')
             @ [Pipeline ''A'' (Inl (Exception ''boom'')), Runner ''A'', Runner ''A'']"

section \<open>Budget enforcement: proofs\<close>

lemma truncate_lines_eq:
  "truncate_lines per ls t = (map (spec_truncate per) ls, t + total_text (map (spec_truncate per) ls))"
proof (induction ls arbitrary: t)
  case Nil
  show ?case by (simp add: total_text_def)
next
  case (Cons l ls)
  show ?case
  proof (cases "length (get_text l) > per")
    case True
    then show ?thesis
      using Cons [of "t + per"]
      by (simp add: Let_def spec_truncate_def total_text_def get_text_def)
  next
    case False
    then show ?thesis
      using Cons [of "t + length (get_text l)"]
      by (simp add: Let_def spec_truncate_def total_text_def)
  qed
qed

lemma spec_truncate_has_text:
  "''text'' \<in> dom l \<Longrightarrow> ''text'' \<in> dom (spec_truncate per l)"
  by (simp add: spec_truncate_def)

lemma spec_truncate_le: "length (get_text (spec_truncate per l)) \<le> per"
  by (simp add: spec_truncate_def get_text_def)

lemma spec_truncate_exact:
  "length (get_text l) > per \<Longrightarrow> length (get_text (spec_truncate per l)) = per"
  by (simp add: spec_truncate_def get_text_def)

lemma trim_lines_eq:
  "\<forall>l \<in> set ls. ''text'' \<in> dom l \<Longrightarrow>
   trim_lines tot ls running acc = Inr (acc @ spec_walk tot running ls)"
proof (induction ls arbitrary: running acc)
  case Nil
  show ?case by simp
next
  case (Cons l ls)
  from Cons.prems obtain x where t: "l ''text'' = Some x" by auto
  have rest: "\<forall>l \<in> set ls. ''text'' \<in> dom l" using Cons.prems by simp
  show ?case
    using Cons.IH [OF rest] t by (simp add: get_text_def)
qed

lemma spec_walk_all:
  "running + total_text rs \<le> tot \<Longrightarrow> spec_walk tot running rs = rs"
  by (induction rs arbitrary: running) (auto simp: total_text_def)

lemma spec_walk_prefix: "prefix (spec_walk tot running rs) rs"
  by (induction rs arbitrary: running) auto

lemma spec_walk_total: "running \<le> tot \<Longrightarrow> running + total_text (spec_walk tot running rs) \<le> tot"
proof (induction rs arbitrary: running)
  case Nil
  then show ?case by (simp add: total_text_def)
next
  case (Cons r rs)
  show ?case
  proof (cases "running + length (get_text r) \<le> tot")
    case True
    from Cons.IH [OF True] True show ?thesis by (simp add: total_text_def)
  next
    case False
    then show ?thesis using Cons.prems by (simp add: total_text_def)
  qed
qed

lemma spec_walk_stops:
  "spec_walk tot running rs \<noteq> rs \<Longrightarrow>
   running + total_text (spec_walk tot running rs)
     + length (get_text (rs ! length (spec_walk tot running rs))) > tot"
proof (induction rs arbitrary: running)
  case Nil
  then show ?case by simp
next
  case (Cons r rs)
  show ?case
  proof (cases "running + length (get_text r) \<le> tot")
    case True
    with Cons.prems have "spec_walk tot (running + length (get_text r)) rs \<noteq> rs" by simp
    from Cons.IH [OF this] True show ?thesis by (simp add: total_text_def)
  next
    case False
    then show ?thesis by (simp add: total_text_def)
  qed
qed

lemma validate_dialogue_eq:
  assumes "\<forall>l \<in> set dialogue. ''text'' \<in> dom l"
  shows "validate_dialogue per tot dialogue = Inr (spec_enforce per tot dialogue)"
proof -
  let ?d = "map (spec_truncate per) dialogue"
  have texts: "\<forall>l \<in> set ?d. ''text'' \<in> dom l"
    using assms by (simp add: spec_truncate_has_text)
  show ?thesis
  proof (cases "total_text ?d > tot")
    case True
    then show ?thesis
      using trim_lines_eq [OF texts, of tot 0 "[]"]
      by (simp add: validate_dialogue_def truncate_lines_eq spec_enforce_def)
  next
    case False
    then have "spec_walk tot 0 ?d = ?d" by (intro spec_walk_all) simp
    with False show ?thesis
      by (simp add: validate_dialogue_def truncate_lines_eq spec_enforce_def)
  qed
qed

text \<open>
  C2. On a dialogue whose lines all carry a text, the code returns what the specification's
  enforcer returns: every line longer than the per-line limit cut to exactly that limit,
  then the longest prefix of the cut lines, in order, whose running total stays within the
  total limit (the walk stops at the first line that would overflow). Hence no returned
  line is longer than the per-line limit and the returned lengths sum to at most the
  total limit.
\<close>

theorem validate_dialogue_budget:
  assumes "\<forall>l \<in> set dialogue. ''text'' \<in> dom l"
  shows "\<exists>out. validate_dialogue per tot dialogue = Inr out
           \<and> out = spec_enforce per tot dialogue
           \<and> prefix out (map (spec_truncate per) dialogue)
           \<and> (\<forall>l \<in> set dialogue. length (get_text l) > per
                 \<longrightarrow> length (get_text (spec_truncate per l)) = per)
           \<and> (\<forall>l \<in> set out. length (get_text l) \<le> per)
           \<and> total_text out \<le> tot
           \<and> (out \<noteq> map (spec_truncate per) dialogue \<longrightarrow>
                total_text out
                  + length (get_text (map (spec_truncate per) dialogue ! length out)) > tot)"
proof -
  let ?d = "map (spec_truncate per) dialogue"
  let ?out = "spec_enforce per tot dialogue"
  have pre: "prefix ?out ?d"
    by (simp add: spec_enforce_def spec_walk_prefix)
  have "set ?out \<subseteq> set ?d" using pre by (rule set_mono_prefix)
  then have each: "\<forall>l \<in> set ?out. length (get_text l) \<le> per"
    using spec_truncate_le by auto
  have total: "total_text ?out \<le> tot"
    using spec_walk_total [of 0 tot ?d] by (simp add: spec_enforce_def)
  have stop: "?out \<noteq> ?d \<longrightarrow> total_text ?out + length (get_text (?d ! length ?out)) > tot"
    using spec_walk_stops [of tot 0 ?d] by (simp add: spec_enforce_def)
  show ?thesis
  proof (intro exI conjI)
    show "validate_dialogue per tot dialogue = Inr ?out"
      by (rule validate_dialogue_eq [OF assms])
    show "?out = spec_enforce per tot dialogue" by (rule refl)
    show "\<forall>l \<in> set dialogue. length (get_text l) > per
             \<longrightarrow> length (get_text (spec_truncate per l)) = per"
      by (simp add: spec_truncate_exact)
  qed (fact pre each total stop)+
qed

theorem validate_dialogue_budget_witness:
  "validate_dialogue 10 15
     [[''speaker'' \<mapsto> ''Host'', ''text'' \<mapsto> ''0123456789ABC''],
      [''speaker'' \<mapsto> ''Guest'', ''text'' \<mapsto> ''short'']]
   = Inr [[''speaker'' \<mapsto> ''Host'', ''text'' \<mapsto> ''0123456789''],
          [''speaker'' \<mapsto> ''Guest'', ''text'' \<mapsto> ''short'']]
   \<and> total_text [[''speaker'' \<mapsto> ''Host'', ''text'' \<mapsto> ''0123456789''],
                  [''speaker'' \<mapsto> ''Guest'', ''text'' \<mapsto> ''short'']] = 15"
proof -
  let ?d = "[[''speaker'' \<mapsto> ''Host'', ''text'' \<mapsto> ''0123456789ABC''],
             [''speaker'' \<mapsto> ''Guest'', ''text'' \<mapsto> ''short'']]"
  have h: "\<forall>l \<in> set ?d. ''text'' \<in> dom l" by simp
  have e: "spec_enforce 10 15 ?d
     = [[''speaker'' \<mapsto> ''Host'', ''text'' \<mapsto> ''0123456789''],
        [''speaker'' \<mapsto> ''Guest'', ''text'' \<mapsto> ''short'']]"
    by (simp add: spec_enforce_def spec_truncate_def get_text_def)
  from validate_dialogue_budget [OF h, of 10 15]
  have "validate_dialogue 10 15 ?d = Inr (spec_enforce 10 15 ?d)"
    by (elim exE conjE) simp
  then show ?thesis
    by (simp add: e total_text_def get_text_def)
qed

section \<open>Extraction: proofs\<close>

lemma not_space_bracket: "\<not> is_space (CHR ''['')" "\<not> is_space (CHR '']'')" "\<not> is_space (CHR ''`'')"
  by (simp_all add: is_space_def)

lemma after_prefix_fence_other: "CHR ''`'' \<noteq> c \<Longrightarrow> after_prefix ''```'' (c # cs) = None"
  by (auto simp: after_prefix_def)

lemma after_prefix_fence: "after_prefix ''```'' (''```'' @ r) = Some r"
  by (simp add: after_prefix_def)

lemma fence_at_other: "CHR ''`'' \<noteq> c \<Longrightarrow> fence_at (c # cs) = None"
  by (simp add: fence_at_def after_prefix_fence_other)

lemma fence_search_skip:
  "CHR ''`'' \<notin> set pre \<Longrightarrow> fence_search (pre @ s) = fence_search s"
  by (induction pre) (simp_all add: fence_at_other)

lemma dropWhile_space_all:
  "\<forall>c \<in> set ws. is_space c \<Longrightarrow> \<not> is_space x \<Longrightarrow> dropWhile is_space (ws @ x # r) = x # r"
  by (induction ws) simp_all

lemma no_fence_after_body:
  "CHR ''`'' \<notin> set bs \<Longrightarrow> after_prefix ''```'' (dropWhile is_space (bs @ CHR '']'' # r)) = None"
proof (induction bs)
  case Nil
  show ?case by (simp add: not_space_bracket after_prefix_fence_other)
next
  case (Cons b bs)
  then show ?case by (simp add: after_prefix_fence_other)
qed

lemma closing_fence:
  assumes "\<forall>c \<in> set ws. is_space c"
  shows "after_prefix ''```'' (dropWhile is_space (ws @ ''```'' @ post)) = Some post"
proof -
  have "dropWhile is_space (ws @ CHR ''`'' # (''``'' @ post)) = CHR ''`'' # (''``'' @ post)"
    using assms by (intro dropWhile_space_all) (simp_all add: not_space_bracket)
  then show ?thesis by (simp add: after_prefix_def)
qed

lemma lazy_close_body:
  assumes "CHR ''`'' \<notin> set body" and "after_prefix ''```'' (dropWhile is_space tail) \<noteq> None"
  shows "lazy_close acc (body @ CHR '']'' # tail) = Some (rev acc @ body @ [CHR '']''])"
  using assms(1)
proof (induction body arbitrary: acc)
  case Nil
  show ?case using assms(2) by simp
next
  case (Cons b bs)
  then have nb: "CHR ''`'' \<notin> set bs" by simp
  show ?case
    using Cons.IH [OF nb, of "b # acc"] no_fence_after_body [OF nb]
    by simp
qed

lemma fence_at_block:
  assumes "tag = [] \<or> tag = ''json''"
    and "\<forall>c \<in> set ws1. is_space c" and "\<forall>c \<in> set ws2. is_space c"
    and "CHR ''`'' \<notin> set body"
  shows "fence_at (''```'' @ tag @ ws1 @ CHR ''['' # body @ CHR '']'' # ws2 @ ''```'' @ post)
         = Some (CHR ''['' # body @ [CHR '']''])"
proof -
  define tail where "tail = ws2 @ ''```'' @ post"
  define rest where "rest = body @ CHR '']'' # tail"
  have nj: "after_prefix ''json'' (ws1 @ CHR ''['' # rest) = None"
  proof (cases ws1)
    case Nil
    then show ?thesis by (simp add: after_prefix_def)
  next
    case (Cons w ws)
    with assms(2) have "is_space w" by simp
    then have "w \<noteq> CHR ''j''" by (auto simp: is_space_def)
    with Cons show ?thesis by (simp add: after_prefix_def)
  qed
  have j: "after_prefix ''json'' (''json'' @ ws1 @ CHR ''['' # rest) = Some (ws1 @ CHR ''['' # rest)"
    by (simp add: after_prefix_def)
  have tagged: "(case after_prefix ''json'' (tag @ ws1 @ CHR ''['' # rest) of
                   Some r' \<Rightarrow> r' | None \<Rightarrow> tag @ ws1 @ CHR ''['' # rest) = ws1 @ CHR ''['' # rest"
    using assms(1) nj j by auto
  have dw: "dropWhile is_space (ws1 @ CHR ''['' # rest) = CHR ''['' # rest"
    using assms(2) by (intro dropWhile_space_all) (simp_all add: not_space_bracket)
  have open_fence: "after_prefix ''```'' (''```'' @ tag @ ws1 @ CHR ''['' # rest)
                    = Some (tag @ ws1 @ CHR ''['' # rest)"
    by (simp add: after_prefix_def)
  have "fence_at (''```'' @ tag @ ws1 @ CHR ''['' # rest) = lazy_close [CHR ''[''] rest"
    unfolding fence_at_def open_fence by (simp only: option.case tagged dw list.case refl if_True)
  moreover have "lazy_close [CHR ''[''] rest = Some (CHR ''['' # body @ [CHR '']''])"
    unfolding rest_def tail_def
    using lazy_close_body [OF assms(4), of "ws2 @ ''```'' @ post" "[CHR ''['']"]
      closing_fence [OF assms(3), of post] by simp
  ultimately show ?thesis by (simp add: rest_def tail_def)
qed

lemma fence_search_block:
  assumes "CHR ''`'' \<notin> set pre" and "tag = [] \<or> tag = ''json''"
    and "\<forall>c \<in> set ws1. is_space c" and "\<forall>c \<in> set ws2. is_space c"
    and "CHR ''`'' \<notin> set body"
  shows "fence_search (pre @ ''```'' @ tag @ ws1 @ CHR ''['' # body @ CHR '']'' # ws2 @ ''```'' @ post)
         = Some (CHR ''['' # body @ [CHR '']''])"
proof -
  let ?s = "tag @ ws1 @ CHR ''['' # body @ CHR '']'' # ws2 @ ''```'' @ post"
  have "fence_search (pre @ ''```'' @ ?s) = fence_search (''```'' @ ?s)"
    by (rule fence_search_skip [OF assms(1)])
  also have "\<dots> = Some (CHR ''['' # body @ [CHR '']''])"
    using fence_at_block [OF assms(2-5), of post] by simp
  finally show ?thesis .
qed

lemma fence_search_none: "CHR ''`'' \<notin> set raw \<Longrightarrow> fence_search raw = None"
  using fence_search_skip [of raw "[]"] by simp

lemma bracket_search_span:
  assumes "CHR ''['' \<notin> set pre" and "CHR '']'' \<notin> set post"
  shows "bracket_search (pre @ CHR ''['' # body @ CHR '']'' # post) = Some (CHR ''['' # body @ [CHR '']''])"
proof -
  have a: "dropWhile (\<lambda>c. c \<noteq> CHR ''['') (pre @ CHR ''['' # body @ CHR '']'' # post)
           = CHR ''['' # body @ CHR '']'' # post"
    using assms(1) by (induction pre) auto
  have b: "dropWhile (\<lambda>c. c \<noteq> CHR '']'') (rev post @ CHR '']'' # rev body) = CHR '']'' # rev body"
    using assms(2) by (induction post rule: rev_induct) auto
  show ?thesis by (simp add: bracket_search_def a b)
qed


lemma after_prefix_Some: "after_prefix p s = Some r \<Longrightarrow> s = p @ r"
  by (metis after_prefix_def append_take_drop_id option.distinct(1) option.inject)

lemma lazy_close_part:
  "lazy_close acc cs = Some g \<Longrightarrow> \<exists>m r. cs = m @ r \<and> g = rev acc @ m"
proof (induction cs arbitrary: acc)
  case Nil
  then show ?case by simp
next
  case (Cons c cs)
  show ?case
  proof (cases "c = CHR '']'' \<and> after_prefix ''```'' (dropWhile is_space cs) \<noteq> None")
    case True
    with Cons.prems have "g = rev acc @ [c]" by auto
    then have "c # cs = [c] @ cs \<and> g = rev acc @ [c]" by simp
    then show ?thesis by blast
  next
    case False
    with Cons.prems have "lazy_close (c # acc) cs = Some g" by auto
    from Cons.IH [OF this] obtain m r where "cs = m @ r" "g = rev (c # acc) @ m" by blast
    then have "c # cs = (c # m) @ r \<and> g = rev acc @ (c # m)" by simp
    then show ?thesis by blast
  qed
qed

lemma fence_at_sublist:
  assumes "fence_at s = Some g"
  shows "\<exists>t. g = CHR ''['' # t \<and> sublist g s"
proof -
  from assms obtain r where r: "after_prefix ''```'' s = Some r"
    by (auto simp: fence_at_def split: option.splits)
  define r1 where "r1 = (case after_prefix ''json'' r of Some r' \<Rightarrow> r' | None \<Rightarrow> r)"
  have "\<exists>p. r = p @ r1"
  proof (cases "after_prefix ''json'' r")
    case None
    then have "r = [] @ r1" by (simp add: r1_def)
    then show ?thesis by blast
  next
    case (Some r')
    then show ?thesis using after_prefix_Some [OF Some] by (auto simp: r1_def)
  qed
  then obtain p1 where p1: "r = p1 @ r1" by blast
  from assms r obtain cs where d: "dropWhile is_space r1 = CHR ''['' # cs"
    and l: "lazy_close [CHR ''[''] cs = Some g"
    by (auto simp: fence_at_def r1_def split: list.splits if_splits)
  from lazy_close_part [OF l] obtain m q where mq: "cs = m @ q" "g = CHR ''['' # m" by auto
  have "r1 = takeWhile is_space r1 @ CHR ''['' # cs"
    using d takeWhile_dropWhile_id [of is_space r1] by simp
  then have "s = (''```'' @ p1 @ takeWhile is_space r1) @ g @ q"
    using after_prefix_Some [OF r] p1 mq by simp
  then have "sublist g s" unfolding sublist_def by blast
  with mq(2) show ?thesis by blast
qed

lemma fence_search_sublist:
  "fence_search s = Some g \<Longrightarrow> \<exists>t. g = CHR ''['' # t \<and> sublist g s"
proof (induction s)
  case Nil
  then show ?case by simp
next
  case (Cons c cs)
  show ?case
  proof (cases "fence_at (c # cs)")
    case None
    with Cons.prems have "fence_search cs = Some g" by simp
    from Cons.IH [OF this] obtain t where "g = CHR ''['' # t" "sublist g cs" by blast
    then show ?thesis by (auto simp: sublist_Cons_right)
  next
    case (Some g')
    with Cons.prems have "g' = g" by simp
    with Some show ?thesis using fence_at_sublist by blast
  qed
qed

lemma bracket_search_sublist:
  assumes "bracket_search s = Some g"
  shows "\<exists>t. g = CHR ''['' # t \<and> sublist g s"
proof -
  from assms obtain b r where br: "dropWhile (\<lambda>c. c \<noteq> CHR ''['') s = b # r"
    by (auto simp: bracket_search_def split: list.splits)
  then have b: "b = CHR ''[''" using hd_dropWhile [of "\<lambda>c. c \<noteq> CHR ''[''" s] by auto
  from assms br obtain e m where em: "dropWhile (\<lambda>c. c \<noteq> CHR '']'') (rev r) = e # m"
    and g: "g = b # rev (e # m)"
    by (auto simp: bracket_search_def split: list.splits)
  have "rev r = takeWhile (\<lambda>c. c \<noteq> CHR '']'') (rev r) @ e # m"
    using em takeWhile_dropWhile_id [of "\<lambda>c. c \<noteq> CHR '']''" "rev r"] by simp
  then have "r = rev (e # m) @ rev (takeWhile (\<lambda>c. c \<noteq> CHR '']'') (rev r))"
    by (metis rev_append rev_rev_ident)
  then have "s = takeWhile (\<lambda>c. c \<noteq> CHR ''['') s @ g @ rev (takeWhile (\<lambda>c. c \<noteq> CHR '']'') (rev r))"
    using br g takeWhile_dropWhile_id [of "\<lambda>c. c \<noteq> CHR ''[''" s] by (metis append_Cons)
  then have "sublist g s" unfolding sublist_def by blast
  with g b show ?thesis by blast
qed

lemma try_fence_none:
  "\<forall>t. sublist (CHR ''['' # t) raw \<longrightarrow> loads (CHR ''['' # t) = None \<Longrightarrow> try_fence loads raw = None"
  using fence_search_sublist [of raw] by (fastforce simp: try_fence_def split: option.splits)

lemma try_bracket_none:
  "\<forall>t. sublist (CHR ''['' # t) raw \<longrightarrow> loads (CHR ''['' # t) = None \<Longrightarrow> try_bracket loads raw = None"
  using bracket_search_sublist [of raw] by (fastforce simp: try_bracket_def split: option.splits)


text \<open>
  C3 (amended). Both extractors try the direct parse, then the fenced block, then the
  span from the first \<open>[\<close> to the last \<open>]\<close>, and return the first that succeeds. For the
  text \<open>A\<close> of a well-formed array with value \<open>xs\<close>: on \<open>A\<close> itself \<open>_extract_json\<close>
  returns \<open>xs\<close> and \<open>_extract_queries\<close> returns \<open>xs\<close> with \<open>str\<close> applied to each element;
  when the direct parse of the prose fails and \<open>A\<close> stands in the first fence (optionally
  tagged json, no backtick before the fence or inside \<open>A\<close>), both return \<open>xs\<close>; when the
  direct parse and the fence both fail and the prose has no \<open>[\<close> before \<open>A\<close> and no \<open>]\<close>
  after it, both return \<open>xs\<close>.
\<close>

theorem extract_embedded_array:
  assumes "A = CHR ''['' # body @ [CHR '']'']" and "loads A = Some (JArr xs)"
  shows "(extract_json loads A = Inr (JArr xs)
          \<and> extract_queries loads repr A = Inr (JArr (map (\<lambda>q. JStr (py_str repr q)) xs)))
       \<and> (\<forall>pre tag ws1 ws2 post raw.
            raw = pre @ ''```'' @ tag @ ws1 @ A @ ws2 @ ''```'' @ post \<longrightarrow>
            as_list (loads raw) = None \<longrightarrow>
            CHR ''`'' \<notin> set (pre @ body) \<longrightarrow> (tag = [] \<or> tag = ''json'') \<longrightarrow>
            (\<forall>c \<in> set (ws1 @ ws2). is_space c) \<longrightarrow>
            extract_json loads raw = Inr (JArr xs) \<and> extract_queries loads repr raw = Inr (JArr xs))
       \<and> (\<forall>pre post raw.
            raw = pre @ A @ post \<longrightarrow>
            as_list (loads raw) = None \<longrightarrow> try_fence loads raw = None \<longrightarrow>
            CHR ''['' \<notin> set pre \<longrightarrow> CHR '']'' \<notin> set post \<longrightarrow>
            extract_json loads raw = Inr (JArr xs) \<and> extract_queries loads repr raw = Inr (JArr xs))
       \<and> (\<forall>raw data. as_list (loads raw) = Some data \<longrightarrow> extract_json loads raw = Inr (JArr data))
       \<and> (\<forall>raw v. as_list (loads raw) = None \<longrightarrow> try_fence loads raw = Some v \<longrightarrow>
            extract_json loads raw = Inr v \<and> extract_queries loads repr raw = Inr v)"
proof (intro conjI allI impI)
  have direct: "as_list (loads A) = Some xs" using assms(2) by (simp add: as_list_def)
  show "extract_json loads A = Inr (JArr xs)"
    by (simp add: extract_json_def direct)
  show "extract_queries loads repr A = Inr (JArr (map (\<lambda>q. JStr (py_str repr q)) xs))"
    by (simp add: extract_queries_def direct)
next
  fix pre tag ws1 ws2 post raw
  assume raw: "raw = pre @ ''```'' @ tag @ ws1 @ A @ ws2 @ ''```'' @ post"
    and nd: "as_list (loads raw) = None"
    and nb: "CHR ''`'' \<notin> set (pre @ body)" and tag: "tag = [] \<or> tag = ''json''"
    and ws: "\<forall>c \<in> set (ws1 @ ws2). is_space c"
  have "fence_search (pre @ ''```'' @ tag @ ws1 @ CHR ''['' # body @ CHR '']'' # ws2 @ ''```'' @ post)
        = Some (CHR ''['' # body @ [CHR '']''])"
    using nb tag ws by (intro fence_search_block) simp_all
  then have "fence_search raw = Some A" by (simp add: raw assms(1))
  then have f: "try_fence loads raw = Some (JArr xs)" by (simp add: try_fence_def assms(2))
  show "extract_json loads raw = Inr (JArr xs)" by (simp add: extract_json_def nd f)
  show "extract_queries loads repr raw = Inr (JArr xs)" by (simp add: extract_queries_def nd f)
next
  fix pre post raw
  assume raw: "raw = pre @ A @ post"
    and nd: "as_list (loads raw) = None" and nf: "try_fence loads raw = None"
    and pre: "CHR ''['' \<notin> set pre" and post: "CHR '']'' \<notin> set post"
  have "bracket_search raw = Some A"
    using bracket_search_span [OF pre post, of body] by (simp add: raw assms(1))
  then have b: "try_bracket loads raw = Some (JArr xs)" by (simp add: try_bracket_def assms(2))
  show "extract_json loads raw = Inr (JArr xs)" by (simp add: extract_json_def nd nf b)
  show "extract_queries loads repr raw = Inr (JArr xs)" by (simp add: extract_queries_def nd nf b)
next
  fix raw data
  assume "as_list (loads raw) = Some data"
  then show "extract_json loads raw = Inr (JArr data)" by (simp add: extract_json_def)
next
  fix raw v
  assume a: "as_list (loads raw) = None" "try_fence loads raw = Some v"
  show "extract_json loads raw = Inr v" by (simp add: extract_json_def a)
  show "extract_queries loads repr raw = Inr v" by (simp add: extract_queries_def a)
qed

theorem extract_embedded_array_witness:
  "extract_json json_loads ''[\"a\",\"b\"]'' = Inr (JArr [JStr ''a'', JStr ''b''])
   \<and> extract_queries json_loads (\<lambda>v. []) ''[\"a\",\"b\"]'' = Inr (JArr [JStr ''a'', JStr ''b''])
   \<and> extract_json json_loads (''here is it: ```json'' @ [CHR 0x0A] @ ''[\"a\",\"b\"]'' @ [CHR 0x0A] @ ''```'')
       = Inr (JArr [JStr ''a'', JStr ''b''])
   \<and> extract_json json_loads ''Sure: [\"a\",\"b\"] ok'' = Inr (JArr [JStr ''a'', JStr ''b''])"
proof -
  let ?A = "''[\"a\",\"b\"]''"
  let ?xs = "[JStr ''a'', JStr ''b'']"
  have A: "?A = CHR ''['' # ''\"a\",\"b\"'' @ [CHR '']'']" by simp
  have wf: "json_loads ?A = Some (JArr ?xs)" by code_simp
  note t = extract_embedded_array
    [where A = ?A and body = "''\"a\",\"b\"''" and loads = json_loads and xs = ?xs
       and repr = "\<lambda>v. []", OF A wf]
  have d1: "extract_json json_loads ?A = Inr (JArr ?xs)" using t by blast
  have d2: "extract_queries json_loads (\<lambda>v. []) ?A = Inr (JArr ?xs)" using t by simp
  let ?fenced = "''here is it: ```json'' @ [CHR 0x0A] @ ?A @ [CHR 0x0A] @ ''```''"
  have f0: "?fenced = ''here is it: '' @ ''```'' @ ''json'' @ [CHR 0x0A] @ ?A @ [CHR 0x0A] @ ''```'' @ []"
    by simp
  have f1: "as_list (json_loads ?fenced) = None" by code_simp
  have f2: "CHR ''`'' \<notin> set (''here is it: '' @ ''\"a\",\"b\"'')" by simp
  have f3: "\<forall>c \<in> set ([CHR 0x0A] @ [CHR 0x0A]). is_space c" by (simp add: is_space_def)
  have d3: "extract_json json_loads ?fenced = Inr (JArr ?xs)"
    using t f0 f1 f2 f3 by blast
  let ?prose = "''Sure: [\"a\",\"b\"] ok''"
  have b0: "?prose = ''Sure: '' @ ?A @ '' ok''" by simp
  have b1: "as_list (json_loads ?prose) = None" by code_simp
  have b2: "try_fence json_loads ?prose = None" by code_simp
  have b3: "CHR ''['' \<notin> set ''Sure: ''" "CHR '']'' \<notin> set '' ok''" by simp_all
  have d4: "extract_json json_loads ?prose = Inr (JArr ?xs)"
    using t b0 b1 b2 b3 by blast
  from d1 d2 d3 d4 show ?thesis by blast
qed

text \<open>
  The claim as stated, for arbitrary prose, fails: a bracket in the prose before the
  array widens the greedy span, which no longer parses.
\<close>

theorem extract_embedded_array_counterexample:
  "json_loads ''[\"a\",\"b\"]'' = Some (JArr [JStr ''a'', JStr ''b''])
   \<and> extract_json json_loads ''see [1] and [\"a\",\"b\"]'' = Inl dialogue_error
   \<and> extract_queries json_loads (\<lambda>v. []) ''see [1] and [\"a\",\"b\"]'' = Inl queries_error"
  by code_simp

text \<open>
  C4. A failed attempt is passed over, and the extractor raises its \<open>ValueError\<close> exactly
  when all three attempts fail: the text does not decode to a list, the fenced group (if
  any) does not decode, and the bracket span (if any) does not decode. It raises nothing
  else. In particular it raises on every text no part of which is a valid array: the
  whole text does not decode to a list and no substring that begins with \<open>[\<close> decodes.
\<close>

theorem extract_error_iff:
  "(extract_json loads raw = Inl dialogue_error \<longleftrightarrow>
      as_list (loads raw) = None
      \<and> (\<forall>g. fence_search raw = Some g \<longrightarrow> loads g = None)
      \<and> (\<forall>g. bracket_search raw = Some g \<longrightarrow> loads g = None))
   \<and> (extract_queries loads repr raw = Inl queries_error \<longleftrightarrow>
      as_list (loads raw) = None
      \<and> (\<forall>g. fence_search raw = Some g \<longrightarrow> loads g = None)
      \<and> (\<forall>g. bracket_search raw = Some g \<longrightarrow> loads g = None))
   \<and> (\<forall>e. extract_json loads raw = Inl e \<longrightarrow> e = dialogue_error)
   \<and> (\<forall>e. extract_queries loads repr raw = Inl e \<longrightarrow> e = queries_error)
   \<and> ((\<forall>data. loads raw \<noteq> Some (JArr data))
        \<and> (\<forall>t. sublist (CHR ''['' # t) raw \<longrightarrow> loads (CHR ''['' # t) = None)
      \<longrightarrow> extract_json loads raw = Inl dialogue_error
          \<and> extract_queries loads repr raw = Inl queries_error)"
proof -
  have f: "try_fence loads raw = None \<longleftrightarrow> (\<forall>g. fence_search raw = Some g \<longrightarrow> loads g = None)"
    by (auto simp: try_fence_def split: option.splits)
  have b: "try_bracket loads raw = None \<longleftrightarrow> (\<forall>g. bracket_search raw = Some g \<longrightarrow> loads g = None)"
    by (auto simp: try_bracket_def split: option.splits)
  have j: "extract_json loads raw = Inl dialogue_error \<longleftrightarrow>
      as_list (loads raw) = None \<and> try_fence loads raw = None \<and> try_bracket loads raw = None"
    by (simp add: extract_json_def split: option.splits)
  have q: "extract_queries loads repr raw = Inl queries_error \<longleftrightarrow>
      as_list (loads raw) = None \<and> try_fence loads raw = None \<and> try_bracket loads raw = None"
    by (simp add: extract_queries_def split: option.splits)
  have je: "\<forall>e. extract_json loads raw = Inl e \<longrightarrow> e = dialogue_error"
    by (simp add: extract_json_def split: option.splits)
  have qe: "\<forall>e. extract_queries loads repr raw = Inl e \<longrightarrow> e = queries_error"
    by (simp add: extract_queries_def split: option.splits)
  have n: "(\<forall>data. loads raw \<noteq> Some (JArr data))
        \<and> (\<forall>t. sublist (CHR ''['' # t) raw \<longrightarrow> loads (CHR ''['' # t) = None)
      \<longrightarrow> extract_json loads raw = Inl dialogue_error
          \<and> extract_queries loads repr raw = Inl queries_error"
  proof (intro impI, elim conjE)
    assume d: "\<forall>data. loads raw \<noteq> Some (JArr data)"
      and s: "\<forall>t. sublist (CHR ''['' # t) raw \<longrightarrow> loads (CHR ''['' # t) = None"
    have "as_list (loads raw) = None"
      using d by (auto simp: as_list_def split: option.splits json.splits)
    then show "extract_json loads raw = Inl dialogue_error
          \<and> extract_queries loads repr raw = Inl queries_error"
      using try_fence_none [OF s] try_bracket_none [OF s] j q by simp
  qed
  show ?thesis using j q je qe n unfolding f b by blast
qed

theorem extract_error_iff_witness:
  "extract_json json_loads ''no data here'' = Inl dialogue_error
   \<and> extract_queries json_loads (\<lambda>v. []) ''no data here'' = Inl queries_error"
proof -
  have l: "json_loads ''no data here'' = None" by code_simp
  have d: "\<forall>data. json_loads ''no data here'' \<noteq> Some (JArr data)" by (simp add: l)
  have "\<not> sublist (CHR ''['' # t) ''no data here''" for t
  proof
    assume "sublist (CHR ''['' # t) ''no data here''"
    from set_mono_sublist [OF this] show False by simp
  qed
  then have s: "\<forall>t. sublist (CHR ''['' # t) ''no data here'' \<longrightarrow> json_loads (CHR ''['' # t) = None"
    by blast
  from extract_error_iff [of json_loads "''no data here''" "\<lambda>v. []"] d s show ?thesis by blast
qed

section \<open>The pipeline: proofs\<close>

text \<open>
  C8. \<open>run\<close> enters the five stages in order and stops at the first that fails: the
  stages entered are those up to the failing one and the result is its exception. A
  failure of the summarizer (stage 3) leaves the script writer and the producer
  uninvoked. An empty list from the research stage raises \<open>RuntimeError\<close> before stage 3.
  Only when all five succeed does \<open>run\<close> return the producer's path.
\<close>

theorem run_fail_fast:
  "(call_flash st topic = Inl e \<longrightarrow> run st loads repr topic = ([Query_generation], Inl e))
   \<and> (call_flash st topic = Inr raw \<longrightarrow>
        (extract_queries loads repr raw = Inl e \<longrightarrow>
           run st loads repr topic = ([Query_generation], Inl e))
      \<and> (extract_queries loads repr raw = Inr queries \<longrightarrow>
        (research st queries = Inl e \<longrightarrow>
           run st loads repr topic = ([Query_generation, Research], Inl e))
      \<and> (research st queries = Inr [] \<longrightarrow>
           run st loads repr topic
             = ([Query_generation, Research], Inl (RuntimeError ''Research stage returned no data.'')))
      \<and> (research st queries = Inr research_data \<and> research_data \<noteq> [] \<longrightarrow>
        (summarise st topic research_data = Inl e \<longrightarrow>
           run st loads repr topic = ([Query_generation, Research, Summarization], Inl e)
           \<and> Scriptwriting \<notin> set (fst (run st loads repr topic))
           \<and> Production \<notin> set (fst (run st loads repr topic)))
      \<and> (summarise st topic research_data = Inr report \<longrightarrow>
        (write_script st topic report = Inl e \<longrightarrow>
           run st loads repr topic
             = ([Query_generation, Research, Summarization, Scriptwriting], Inl e))
      \<and> (write_script st topic report = Inr dialogue \<longrightarrow>
        (produce st dialogue = Inl e \<longrightarrow> run st loads repr topic = (all_stages, Inl e))
      \<and> (produce st dialogue = Inr output_path \<longrightarrow>
           run st loads repr topic = (all_stages, Inr output_path)))))))
   \<and> prefix (fst (run st loads repr topic)) all_stages
   \<and> (\<forall>p. snd (run st loads repr topic) = Inr p \<longrightarrow> fst (run st loads repr topic) = all_stages)"
  by (simp add: run_def all_stages_def split: sum.splits)

theorem run_fail_fast_witness:
  "run (demo (Inl (Exception ''boom''))) json_loads (\<lambda>v. []) ''bats''
     = ([Query_generation, Research, Summarization], Inl (Exception ''boom''))
   \<and> run (demo (Inr ''report'')) json_loads (\<lambda>v. []) ''bats''
     = (all_stages, Inr [''output'', ''podcast.mp3''])"
proof -
  have q: "extract_queries json_loads (\<lambda>v. []) ''[\"q\"]'' = Inr (JArr [JStr ''q''])"
    by code_simp
  note t = run_fail_fast [where loads = json_loads and repr = "\<lambda>v. []" and topic = "''bats''"
      and raw = "''[\"q\"]''" and queries = "JArr [JStr ''q'']"
      and research_data = "[[''url'' \<mapsto> ''u'', ''title'' \<mapsto> ''t'', ''text'' \<mapsto> ''x'']]"
      and report = "''report''" and dialogue = "[[''speaker'' \<mapsto> ''Host'', ''text'' \<mapsto> ''hi'']]"
      and output_path = "[''output'', ''podcast.mp3'']" and e = "Exception ''boom''"]
  have a: "run (demo (Inl (Exception ''boom''))) json_loads (\<lambda>v. []) ''bats''
     = ([Query_generation, Research, Summarization], Inl (Exception ''boom''))"
    using t [of "demo (Inl (Exception ''boom''))"] q by (simp add: demo_def)
  have b: "run (demo (Inr ''report'')) json_loads (\<lambda>v. []) ''bats''
     = (all_stages, Inr [''output'', ''podcast.mp3''])"
    using t [of "demo (Inr ''report'')"] q by (simp add: demo_def)
  from a b show ?thesis by simp
qed

section \<open>The server: invariants\<close>

lemma tee_write_fields [simp]:
  "JOBS (tee_write text s) = JOBS s"
  "threads (tee_write text s) = threads s"
  "streams (tee_write text s) = streams s"
  by (simp_all add: tee_write_def)

lemma tee_write_queue:
  "status_queues (tee_write text s) j
   = map_option (\<lambda>q. if strip text \<noteq> [] \<and> length q < maxsize then q @ [strip text] else q)
       (status_queues s j)"
  by (cases "status_queues s j") (simp_all add: tee_write_def tee_def put_nowait_def)

lemma goto_fields [simp]:
  "JOBS (goto j p s) = JOBS s"
  "status_queues (goto j p s) = status_queues s"
  "streams (goto j p s) = streams s"
  "threads (goto j p s) = (threads s)(j \<mapsto> p)"
  by (simp_all add: goto_def)

lemma iteration_fields:
  assumes "iteration j q s = (r, state, s')"
  shows "JOBS s' = JOBS s" "threads s' = threads s" "streams s' = streams s"
    "status_queues s' = status_queues s \<or> (\<exists>line rest. q = line # rest \<and> status_queues s' = (status_queues s)(j \<mapsto> rest))"
  using assms by (auto simp: iteration_def Let_def split: list.splits if_splits option.splits)

lemma event_stream_fields:
  assumes "event_stream st s = (r, st', s')"
  shows "JOBS s' = JOBS s" "threads s' = threads s" "streams s' = streams s"
    "status_queues s' k = None \<longleftrightarrow> status_queues s k = None"
    "stream_job st' = stream_job st"
proof -
  show "JOBS s' = JOBS s" "threads s' = threads s" "streams s' = streams s" "stream_job st' = stream_job st"
    using assms iteration_fields
    by (auto simp: event_stream_def split: if_splits option.splits prod.splits)
  show "status_queues s' k = None \<longleftrightarrow> status_queues s k = None"
    using assms iteration_fields(4)
    by (fastforce simp: event_stream_def split: if_splits option.splits prod.splits)
qed

lemma consistentD:
  "consistent s \<Longrightarrow> threads s j = Some p \<Longrightarrow>
   \<exists>job q. JOBS s j = Some job \<and> job_at p job \<and> status_queues s j = Some q"
  "consistent s \<Longrightarrow> threads s j = None \<Longrightarrow> JOBS s j = None \<and> status_queues s j = None"
  unfolding consistent_def by blast+

lemma consistentI:
  assumes "\<And>j p. threads s j = Some p \<Longrightarrow>
             \<exists>job q. JOBS s j = Some job \<and> job_at p job \<and> status_queues s j = Some q"
    and "\<And>j. threads s j = None \<Longrightarrow> JOBS s j = None \<and> status_queues s j = None"
  shows "consistent s"
  unfolding consistent_def using assms by blast

lemma in_pipelineD: "in_pipeline s j \<Longrightarrow> \<exists>t. threads s j = Some (Run_pipeline t)"
  by (auto simp: in_pipeline_def split: option.splits pc.splits)

lemma consistent_unknown: "consistent s \<Longrightarrow> JOBS s j = None \<Longrightarrow> threads s j = None"
  by (cases "threads s j") (auto dest: consistentD)

lemma consistent_known:
  assumes "consistent s" and "JOBS s j = Some job"
  shows "\<exists>p q. threads s j = Some p \<and> job_at p job \<and> status_queues s j = Some q"
proof (cases "threads s j")
  case None
  with consistentD(2) [OF assms(1) None] assms(2) show ?thesis by simp
next
  case (Some p)
  with consistentD(1) [OF assms(1) Some] assms(2) show ?thesis by auto
qed

lemma consistent_generate:
  assumes "consistent s" and "JOBS s j = None"
  shows "consistent (snd (generate t j s))"
proof (cases "strip t = []")
  case True
  then show ?thesis using assms by (simp add: generate_def)
next
  case False
  show ?thesis
  proof (rule consistentI)
    fix k p assume "threads (snd (generate t j s)) k = Some p"
    then show "\<exists>job q. JOBS (snd (generate t j s)) k = Some job \<and> job_at p job
                 \<and> status_queues (snd (generate t j s)) k = Some q"
      using False consistentD(1) [OF assms(1), of k p]
      by (auto simp: generate_def Let_def fresh_job_def split: if_splits)
  next
    fix k assume "threads (snd (generate t j s)) k = None"
    then show "JOBS (snd (generate t j s)) k = None \<and> status_queues (snd (generate t j s)) k = None"
      using False consistentD(2) [OF assms(1), of k]
      by (auto simp: generate_def Let_def split: if_splits)
  qed
qed

lemma consistent_tee_write: "consistent s \<Longrightarrow> consistent (tee_write text s)"
  by (rule consistentI) (auto simp: tee_write_queue dest: consistentD)

lemma consistent_goto:
  assumes "consistent s" and "JOBS s j = Some job" and "job_at p job" and "threads s j \<noteq> None"
  shows "consistent (goto j p s)"
proof (rule consistentI)
  fix k p' assume "threads (goto j p s) k = Some p'"
  then show "\<exists>job q. JOBS (goto j p s) k = Some job \<and> job_at p' job \<and> status_queues (goto j p s) k = Some q"
    using assms consistentD(1) [OF assms(1), of k] by (cases "k = j") auto
next
  fix k assume "threads (goto j p s) k = None"
  then show "JOBS (goto j p s) k = None \<and> status_queues (goto j p s) k = None"
    using consistentD(2) [OF assms(1), of k] by (cases "k = j") auto
qed

lemma consistent_set_item:
  assumes "consistent s" and "threads s j = Some p0" and "JOBS s j = Some job" and "job_at p (f job)"
  shows "set_item j f s = Inr (s\<lparr>JOBS := (JOBS s)(j \<mapsto> f job)\<rparr>)"
    and "consistent (goto j p (s\<lparr>JOBS := (JOBS s)(j \<mapsto> f job)\<rparr>))"
proof -
  show "set_item j f s = Inr (s\<lparr>JOBS := (JOBS s)(j \<mapsto> f job)\<rparr>)"
    using assms(3) by (simp add: set_item_def)
  show "consistent (goto j p (s\<lparr>JOBS := (JOBS s)(j \<mapsto> f job)\<rparr>))"
  proof (rule consistentI)
    fix k p' assume "threads (goto j p (s\<lparr>JOBS := (JOBS s)(j \<mapsto> f job)\<rparr>)) k = Some p'"
    then show "\<exists>job' q. JOBS (goto j p (s\<lparr>JOBS := (JOBS s)(j \<mapsto> f job)\<rparr>)) k = Some job' \<and> job_at p' job'
        \<and> status_queues (goto j p (s\<lparr>JOBS := (JOBS s)(j \<mapsto> f job)\<rparr>)) k = Some q"
      using assms consistentD(1) [OF assms(1), of k] by (cases "k = j") auto
  next
    fix k assume "threads (goto j p (s\<lparr>JOBS := (JOBS s)(j \<mapsto> f job)\<rparr>)) k = None"
    then show "JOBS (goto j p (s\<lparr>JOBS := (JOBS s)(j \<mapsto> f job)\<rparr>)) k = None
        \<and> status_queues (goto j p (s\<lparr>JOBS := (JOBS s)(j \<mapsto> f job)\<rparr>)) k = None"
      using consistentD(2) [OF assms(1), of k] by (cases "k = j") auto
  qed
qed

lemma consistent_runner:
  assumes "consistent s" and "threads s j = Some p" and "runner j p s = Some s'"
  shows "consistent s'"
proof -
  from consistentD(1) [OF assms(1,2)] obtain job q
    where job: "JOBS s j = Some job" "job_at p job" and q: "status_queues s j = Some q" by blast
  show ?thesis
  proof (cases p)
    case (Run_pipeline t)
    with assms(3) show ?thesis by simp
  next
    case (Set_status_done path)
    with job have "job_at (Set_result path) (job\<lparr>status := ''done''\<rparr>)" by simp
    from consistent_set_item [where f = "\<lambda>job. job\<lparr>status := ''done''\<rparr>", OF assms(1,2) job(1) this]
      assms(3) Set_status_done
    show ?thesis by simp
  next
    case (Set_result path)
    with job have "job_at (Put_done None) (job\<lparr>result := Some (path_name path)\<rparr>)"
      by (simp add: final_def fresh_job_def)
    from consistent_set_item [where f = "\<lambda>job. job\<lparr>result := Some (path_name path)\<rparr>", OF assms(1,2) job(1) this]
      assms(3) Set_result
    show ?thesis by simp
  next
    case (Set_status_error e)
    with job have "job_at (Set_error e) (job\<lparr>status := ''error''\<rparr>)" by simp
    from consistent_set_item [where f = "\<lambda>job. job\<lparr>status := ''error''\<rparr>", OF assms(1,2) job(1) this]
      assms(3) Set_status_error
    show ?thesis by simp
  next
    case (Set_error e)
    with job have "job_at (Put_done None) (job\<lparr>error := Some (str_exn e)\<rparr>)"
      by (simp add: final_def fresh_job_def)
    from consistent_set_item [where f = "\<lambda>job. job\<lparr>error := Some (str_exn e)\<rparr>", OF assms(1,2) job(1) this]
      assms(3) Set_error
    show ?thesis by simp
  next
    case (Put_done x)
    with assms(3) q have room: "length q < maxsize"
      and s': "s' = goto j (Exited x) (s\<lparr>status_queues := (status_queues s)(j \<mapsto> q @ [DONE])\<rparr>)"
      by (auto split: if_splits)
    show ?thesis
    proof (rule consistentI)
      fix k p' assume "threads s' k = Some p'"
      then show "\<exists>job q. JOBS s' k = Some job \<and> job_at p' job \<and> status_queues s' k = Some q"
        using s' job Put_done consistentD(1) [OF assms(1), of k] by (cases "k = j") auto
    next
      fix k assume "threads s' k = None"
      then show "JOBS s' k = None \<and> status_queues s' k = None"
        using s' consistentD(2) [OF assms(1), of k] by (cases "k = j") auto
    qed
  next
    case (Exited x)
    with assms(3) show ?thesis by simp
  qed
qed

lemma consistent_fire:
  assumes "consistent s" and "fire l s = Some s'"
  shows "consistent s'"
proof (cases l)
  case (Generate t j)
  with assms show ?thesis by (auto simp: consistent_generate split: if_splits)
next
  case (Print j tx)
  with assms show ?thesis by (auto simp: consistent_tee_write split: if_splits)
next
  case (Pipeline j outcome)
  with assms(2) have ip: "in_pipeline s j"
    and s': "s' = goto j (case outcome of Inr p \<Rightarrow> Set_status_done p | Inl e \<Rightarrow> Set_status_error e) s"
    by (auto split: if_splits)
  from in_pipelineD [OF ip] obtain t where t: "threads s j = Some (Run_pipeline t)" by blast
  from consistentD(1) [OF assms(1) t] obtain job where "JOBS s j = Some job" "job_at (Run_pipeline t) job"
    by blast
  then show ?thesis unfolding s' using t assms(1)
    by (intro consistent_goto [of s j job]) (auto split: sum.splits)
next
  case (Runner j)
  with assms show ?thesis by (auto split: option.splits intro: consistent_runner)
next
  case (Connect c j)
  with assms(2) have "JOBS s' = JOBS s" "threads s' = threads s" "status_queues s' = status_queues s"
    by (auto split: if_splits sum.splits)
  with assms(1) show ?thesis by (simp add: consistent_def)
next
  case (Next c)
  with assms(2) obtain st r st' s1 where es: "event_stream st s = (r, st', s1)"
    and s': "s' = s1\<lparr>streams := (streams s1)(c \<mapsto> st')\<rparr>"
    by (auto split: option.splits prod.splits)
  show ?thesis
  proof (rule consistentI)
    fix k p assume "threads s' k = Some p"
    then have "threads s k = Some p" using s' event_stream_fields(2) [OF es] by simp
    from consistentD(1) [OF assms(1) this] obtain job q
      where "JOBS s k = Some job" "job_at p job" "status_queues s k = Some q" by blast
    then show "\<exists>job q. JOBS s' k = Some job \<and> job_at p job \<and> status_queues s' k = Some q"
      using s' event_stream_fields(1) [OF es] event_stream_fields(4) [OF es, of k] by auto
  next
    fix k assume "threads s' k = None"
    then have "threads s k = None" using s' event_stream_fields(2) [OF es] by simp
    from consistentD(2) [OF assms(1) this]
    show "JOBS s' k = None \<and> status_queues s' k = None"
      using s' event_stream_fields(1) [OF es] event_stream_fields(4) [OF es, of k] by auto
  qed
qed


lemma fire_JOBS_kept:
  assumes "fire l s = Some s'" and "JOBS s j = Some job"
  shows "\<exists>job'. JOBS s' j = Some job'"
proof (cases l)
  case (Generate t k)
  with assms show ?thesis by (auto simp: generate_def Let_def split: if_splits)
next
  case (Print k tx)
  with assms show ?thesis by (auto split: if_splits)
next
  case (Pipeline k outcome)
  with assms show ?thesis by (auto split: if_splits)
next
  case (Runner k)
  with assms obtain p where p: "threads s k = Some p" "runner k p s = Some s'"
    by (auto split: option.splits)
  then show ?thesis using assms(2)
    by (cases p) (auto simp: set_item_def split: option.splits if_splits)
next
  case (Connect c k)
  with assms show ?thesis by (auto split: if_splits sum.splits)
next
  case (Next c)
  with assms obtain st r st' s1 where es: "event_stream st s = (r, st', s1)"
    and s': "s' = s1\<lparr>streams := (streams s1)(c \<mapsto> st')\<rparr>"
    by (auto split: option.splits prod.splits)
  then show ?thesis using assms(2) event_stream_fields(1) [OF es] by simp
qed

lemma event_stream_ok:
  assumes "consistent s" and "stream_ok s st" and "event_stream st s = (r, st', s')"
  shows "stream_ok s' st'"
proof (cases "stream_state st = CLOSED")
  case True
  with assms show ?thesis by (simp add: event_stream_def)
next
  case False
  from assms(2) obtain job where job: "JOBS s (stream_job st) = Some job"
    by (auto simp: stream_ok_def)
  from consistent_known [OF assms(1) job]
  obtain q where q: "status_queues s (stream_job st) = Some q" by blast
  have none: "\<not> list_ex is_complete (sent st)"
    using assms(2) False by (cases "stream_state st") (auto simp: stream_ok_def)
  have nd: "Log DONE \<notin> set (sent st)" using assms(2) by (simp add: stream_ok_def)
  have jobs: "JOBS s' = JOBS s" by (rule event_stream_fields(1) [OF assms(3)])
  show ?thesis
  proof (cases q)
    case Nil
    with assms(3) False q have "st' = st\<lparr>stream_state := AWAIT, sent := sent st @ [Keepalive]\<rparr>"
      by (simp add: event_stream_def iteration_def resumed_events_def)
    then show ?thesis using none nd job jobs
      by (simp add: stream_ok_def is_complete_def)
  next
    case (Cons line rest)
    show ?thesis
    proof (cases "line = DONE")
      case True
      with assms(3) False q Cons job
      have "st' = st\<lparr>stream_state := CLOSED,
                      sent := sent st @ [Complete (status job) (result job) (error job)]\<rparr>"
        by (simp add: event_stream_def iteration_def resumed_events_def Let_def)
      then show ?thesis using none nd job jobs
        by (simp add: stream_ok_def is_complete_def)
    next
      case nl: False
      with assms(3) False q Cons
      have "st' = st\<lparr>stream_state := AWAIT, sent := sent st @ [Log line]\<rparr>"
        by (simp add: event_stream_def iteration_def resumed_events_def Let_def)
      then show ?thesis using none nd job jobs nl
        by (simp add: stream_ok_def is_complete_def)
    qed
  qed
qed

lemma stream_ok_cong: "stream_ok s st \<Longrightarrow> \<forall>j. JOBS s j \<noteq> None \<longrightarrow> JOBS s' j \<noteq> None \<Longrightarrow> stream_ok s' st"
  by (simp add: stream_ok_def)

lemma invariant_fire:
  assumes "invariant s" and "fire l s = Some s'"
  shows "invariant s'"
proof -
  from assms(1) have c: "consistent s" and ok: "\<And>c st. streams s c = Some st \<Longrightarrow> stream_ok s st"
    by (auto simp: invariant_def)
  have kept: "\<forall>j. JOBS s j \<noteq> None \<longrightarrow> JOBS s' j \<noteq> None"
    using fire_JOBS_kept [OF assms(2)] by fastforce
  have "stream_ok s' st" if st: "streams s' c = Some st" for c st
  proof (cases l)
    case (Generate t k)
    with assms(2) st have "streams s c = Some st"
      by (auto simp: generate_def Let_def split: if_splits)
    then show ?thesis using ok kept stream_ok_cong by blast
  next
    case (Print k tx)
    with assms(2) st have "streams s c = Some st" by (auto split: if_splits)
    then show ?thesis using ok kept stream_ok_cong by blast
  next
    case (Pipeline k outcome)
    with assms(2) st have "streams s c = Some st" by (auto split: if_splits)
    then show ?thesis using ok kept stream_ok_cong by blast
  next
    case (Runner k)
    with assms(2) obtain p where p: "threads s k = Some p" "runner k p s = Some s'"
      by (auto split: option.splits)
    then have "streams s' = streams s"
      by (cases p) (auto simp: set_item_def split: option.splits if_splits)
    with st have "streams s c = Some st" by simp
    then show ?thesis using ok kept stream_ok_cong by blast
  next
    case (Connect c' k)
    show ?thesis
    proof (cases "c = c' \<and> JOBS s k \<noteq> None")
      case True
      with assms(2) st Connect have "st = \<lparr>stream_job = k, stream_state = NOT_STARTED, sent = []\<rparr>"
        and "JOBS s' = JOBS s"
        by (auto simp: status_stream_def split: if_splits)
      with True show ?thesis by (simp add: stream_ok_def)
    next
      case False
      with assms(2) st Connect have "streams s c = Some st"
        by (auto simp: status_stream_def split: if_splits)
      then show ?thesis using ok kept stream_ok_cong by blast
    qed
  next
    case (Next c')
    with assms(2) obtain st0 r st1 s1 where c': "streams s c' = Some st0"
      and es: "event_stream st0 s = (r, st1, s1)"
      and s': "s' = s1\<lparr>streams := (streams s1)(c' \<mapsto> st1)\<rparr>"
      by (auto split: option.splits prod.splits)
    show ?thesis
    proof (cases "c = c'")
      case True
      with st s' have "st = st1" by simp
      moreover have "stream_ok s1 st1" by (rule event_stream_ok [OF c ok [OF c'] es])
      ultimately show ?thesis using s' by (simp add: stream_ok_def)
    next
      case False
      with st s' have "streams s c = Some st" using event_stream_fields(3) [OF es] by simp
      then show ?thesis using ok kept stream_ok_cong by blast
    qed
  qed
  with consistent_fire [OF c assms(2)] show ?thesis by (simp add: invariant_def)
qed

lemma reachable_invariant: "reachable s \<Longrightarrow> invariant s"
proof (induction rule: reachable.induct)
  case start
  show ?case by (simp add: invariant_def consistent_def initial_def)
next
  case (step s l s')
  then show ?case by (auto intro: invariant_fire)
qed

lemma exec_reachable: "reachable s \<Longrightarrow> exec ls s = Some s' \<Longrightarrow> reachable s'"
proof (induction ls arbitrary: s)
  case Nil
  then show ?case by simp
next
  case (Cons l ls)
  then show ?case by (auto split: option.splits intro: reachable.step)
qed

section \<open>The server: the claims\<close>


lemma exec_the: "exec ls initial = Some s \<Longrightarrow> reachable s"
  using exec_reachable [OF reachable.start] by blast

lemma exec_append: "exec (xs @ ys) s = (case exec xs s of None \<Rightarrow> None | Some s' \<Rightarrow> exec ys s')"
  by (induction xs arbitrary: s) (auto split: option.splits)

text \<open>
  C1 (amended). A line written during any job's pipeline is not kept to that job's
  channel: \<open>_TeeWriter.write\<close> appends the stripped text, when it is not blank, to every
  queue of \<open>_status_queues\<close> that has room, and changes nothing else. So a line that job
  \<open>a\<close> prints reaches the channel of every job \<open>b\<close>, and which job printed it makes no
  difference to the state.
\<close>

theorem tee_write_broadcast:
  "status_queues (tee_write text s) b
     = map_option (\<lambda>q. if strip text \<noteq> [] \<and> length q < maxsize then q @ [strip text] else q)
         (status_queues s b)
   \<and> JOBS (tee_write text s) = JOBS s
   \<and> (in_pipeline s a \<longrightarrow> fire (Print a text) s = Some (tee_write text s))
   \<and> (in_pipeline s a \<and> status_queues s b = Some q \<and> length q < maxsize \<and> strip text \<noteq> [] \<longrightarrow>
        (\<exists>s'. fire (Print a text) s = Some s' \<and> status_queues s' b = Some (q @ [strip text])))"
  by (simp add: tee_write_queue)

theorem tee_write_broadcast_witness:
  "\<exists>s. exec two_jobs initial = Some s
       \<and> in_pipeline s ''A'' \<and> status_queues s ''B'' = Some []
       \<and> fire (Print ''A'' ''  step 1 '') s = Some (tee_write ''  step 1 '' s)
       \<and> status_queues (tee_write ''  step 1 '' s) ''B'' = Some [''step 1'']"
proof -
  obtain s where s: "exec two_jobs initial = Some s" and a: "in_pipeline s ''A''"
    and b: "status_queues s ''B'' = Some []"
    by (simp add: two_jobs_def initial_def generate_def strip_def is_space_def in_pipeline_def)
  have t: "strip ''  step 1 '' = ''step 1''" by (simp add: strip_def is_space_def)
  from tee_write_broadcast [of "''  step 1 ''" s "''B''" "''A''" "[]"] a b t
  have "fire (Print ''A'' ''  step 1 '') s = Some (tee_write ''  step 1 '' s)"
    and "status_queues (tee_write ''  step 1 '' s) ''B'' = Some [''step 1'']"
    by (simp_all add: maxsize_def)
  with s a b show ?thesis by blast
qed

text \<open>With two jobs open, a line of job A appears on the channel of job B.\<close>

theorem tee_write_broadcast_counterexample:
  "map_option (\<lambda>s. (status_queues s ''A'', status_queues s ''B''))
     (exec (two_jobs @ [Print ''A'' ''hello'']) initial)
   = Some (Some [''hello''], Some [''hello''])"
  by code_simp


lemma fire_queue_kept:
  assumes "fire l s = Some s'" and "status_queues s j = Some q"
  shows "\<exists>q'. status_queues s' j = Some q'"
proof (cases l)
  case (Generate t k)
  with assms show ?thesis by (auto simp: generate_def Let_def split: if_splits)
next
  case (Print k tx)
  with assms show ?thesis by (auto simp: tee_write_queue split: if_splits)
next
  case (Pipeline k outcome)
  with assms show ?thesis by (auto split: if_splits)
next
  case (Runner k)
  with assms obtain p where p: "threads s k = Some p" "runner k p s = Some s'"
    by (auto split: option.splits)
  then show ?thesis using assms(2)
    by (cases p) (auto simp: set_item_def split: option.splits if_splits)
next
  case (Connect c k)
  with assms show ?thesis by (auto split: if_splits sum.splits)
next
  case (Next c)
  with assms obtain st r st' s1 where es: "event_stream st s = (r, st', s1)"
    and s': "s' = s1\<lparr>streams := (streams s1)(c \<mapsto> st')\<rparr>"
    by (auto split: option.splits prod.splits)
  then show ?thesis using assms(2) event_stream_fields(4) [OF es, of j] by auto
qed

text \<open>
  C9 (amended). A job's channel is created when the job is submitted, and no step of
  the server removes it: after the \<open>complete\<close> event has been sent, \<open>_status_queues\<close> still
  holds the entry of that job, and in every reachable state every known job has its
  channel.
\<close>

theorem channel_never_removed:
  "(strip topic \<noteq> [] \<and> JOBS s j = None \<longrightarrow>
      (\<exists>s'. fire (Generate topic j) s = Some s' \<and> status_queues s' j = Some []))
   \<and> (\<forall>l s'. fire l s = Some s' \<and> status_queues s j \<noteq> None \<longrightarrow> status_queues s' j \<noteq> None)
   \<and> (\<forall>st a b d st' s'. event_stream st s = (Yield (Complete a b d), st', s') \<longrightarrow>
        status_queues s' (stream_job st) \<noteq> None)
   \<and> (reachable s \<and> JOBS s j \<noteq> None \<longrightarrow> status_queues s j \<noteq> None)"
proof (intro conjI allI impI)
  assume "strip topic \<noteq> [] \<and> JOBS s j = None"
  then show "\<exists>s'. fire (Generate topic j) s = Some s' \<and> status_queues s' j = Some []"
    by (simp add: generate_def Let_def)
next
  fix l s' assume "fire l s = Some s' \<and> status_queues s j \<noteq> None"
  then show "status_queues s' j \<noteq> None" using fire_queue_kept [of l s s' j] by auto
next
  fix st a b d st' s' assume es: "event_stream st s = (Yield (Complete a b d), st', s')"
  then have "status_queues s (stream_job st) \<noteq> None"
    by (auto simp: event_stream_def split: if_splits option.splits)
  then show "status_queues s' (stream_job st) \<noteq> None"
    using event_stream_fields(4) [OF es] by simp
next
  assume "reachable s \<and> JOBS s j \<noteq> None"
  then show "status_queues s j \<noteq> None"
    using reachable_invariant [of s] consistent_known [of s j] by (auto simp: invariant_def)
qed

theorem channel_never_removed_witness:
  "\<exists>s st. exec watched_job initial = Some s \<and> streams s 0 = Some st
       \<and> sent st = [Log ''step 1'', Complete ''error'' None (Some ''boom'')]
       \<and> status_queues s ''A'' \<noteq> None"
proof -
  obtain s st where s: "exec watched_job initial = Some s" and st: "streams s 0 = Some st"
    and sent: "sent st = [Log ''step 1'', Complete ''error'' None (Some ''boom'')]"
    and j: "JOBS s ''A'' \<noteq> None"
    by (simp add: watched_job_def failed_job_def initial_def generate_def strip_def is_space_def
        in_pipeline_def tee_write_def tee_def put_nowait_def maxsize_def goto_def set_item_def
        status_stream_def event_stream_def iteration_def DONE_def resumed_events_def)
  from exec_the [OF s] j channel_never_removed [of _ s "''A''"]
  have "status_queues s ''A'' \<noteq> None" by blast
  with s st sent show ?thesis by blast
qed

text \<open>After the stream has relayed the marker, the channel is still in the map, empty.\<close>

theorem channel_never_removed_counterexample:
  "map_option (\<lambda>s. (map_option sent (streams s 0), status_queues s ''A'')) (exec watched_job initial)
   = Some (Some [Log ''step 1'', Complete ''error'' None (Some ''boom'')], Some [])"
  by code_simp

text \<open>
  C10. The marker is the text \<open>__DONE__\<close> in band. A write whose stripped text is the
  marker puts the marker on the channels; a stream that takes the marker from its queue
  sends the \<open>complete\<close> event with whatever the job's entry holds at that moment and
  closes, also while the job is running; and no log event carries the marker.
\<close>

theorem done_marker_in_band:
  "(strip text = DONE \<and> status_queues s j = Some q \<and> length q < maxsize \<longrightarrow>
      status_queues (tee_write text s) j = Some (q @ [DONE]))
   \<and> (stream_job st = j \<and> stream_state st \<noteq> CLOSED \<and> status_queues s j = Some (DONE # q)
        \<and> JOBS s j = Some job \<longrightarrow>
      event_stream st s
        = (Yield (Complete (status job) (result job) (error job)),
           st\<lparr>stream_state := CLOSED,
              sent := sent st @ [Complete (status job) (result job) (error job)]\<rparr>,
           s\<lparr>status_queues := (status_queues s)(j \<mapsto> q)\<rparr>))
   \<and> (\<forall>m st' s'. event_stream st s = (Yield (Log m), st', s') \<longrightarrow> m \<noteq> DONE)
   \<and> (\<forall>c. reachable s \<and> streams s c = Some st \<longrightarrow> Log DONE \<notin> set (sent st))"
proof (intro conjI allI impI)
  assume "strip text = DONE \<and> status_queues s j = Some q \<and> length q < maxsize"
  then show "status_queues (tee_write text s) j = Some (q @ [DONE])"
    by (simp add: tee_write_queue DONE_def)
next
  assume "stream_job st = j \<and> stream_state st \<noteq> CLOSED \<and> status_queues s j = Some (DONE # q)
        \<and> JOBS s j = Some job"
  then show "event_stream st s
        = (Yield (Complete (status job) (result job) (error job)),
           st\<lparr>stream_state := CLOSED,
              sent := sent st @ [Complete (status job) (result job) (error job)]\<rparr>,
           s\<lparr>status_queues := (status_queues s)(j \<mapsto> q)\<rparr>)"
    by (simp add: event_stream_def iteration_def resumed_events_def Let_def)
next
  fix m st' s' assume "event_stream st s = (Yield (Log m), st', s')"
  then show "m \<noteq> DONE"
    by (auto simp: event_stream_def iteration_def Let_def
        split: if_splits option.splits list.splits)
next
  fix c assume "reachable s \<and> streams s c = Some st"
  then show "Log DONE \<notin> set (sent st)"
    using reachable_invariant [of s] by (auto simp: invariant_def stream_ok_def)
qed

theorem done_marker_in_band_witness:
  "\<exists>s st. exec marker_printed initial = Some s \<and> streams s 0 = Some st
     \<and> threads s ''A'' = Some (Run_pipeline ''bats'')
     \<and> status_queues s ''A'' = Some [DONE]
     \<and> event_stream st s
        = (Yield (Complete ''running'' None None),
           st\<lparr>stream_state := CLOSED, sent := [Complete ''running'' None None]\<rparr>,
           s\<lparr>status_queues := (status_queues s)(''A'' \<mapsto> [])\<rparr>)"
proof -
  obtain s st where s: "exec marker_printed initial = Some s" and st: "streams s 0 = Some st"
    and t: "threads s ''A'' = Some (Run_pipeline ''bats'')"
    and q: "status_queues s ''A'' = Some [DONE]"
    and j: "JOBS s ''A'' = Some \<lparr>status = ''running'', result = None, error = None\<rparr>"
    and f: "stream_job st = ''A''" "stream_state st = NOT_STARTED" "sent st = []"
    by (simp add: marker_printed_def initial_def generate_def strip_def is_space_def
        in_pipeline_def tee_write_def tee_def put_nowait_def maxsize_def
        status_stream_def DONE_def)
  from done_marker_in_band [of "'' __DONE__ ''" s "''A''" "[]" st
      "\<lparr>status = ''running'', result = None, error = None\<rparr>"] q j f
  have "event_stream st s
        = (Yield (Complete ''running'' None None),
           st\<lparr>stream_state := CLOSED, sent := [Complete ''running'' None None]\<rparr>,
           s\<lparr>status_queues := (status_queues s)(''A'' \<mapsto> [])\<rparr>)"
    by simp
  with s st t q show ?thesis by blast
qed


lemma job_at_cases:
  assumes "job_at p job"
  shows "\<not> (result job \<noteq> None \<and> error job \<noteq> None)
       \<and> (result job \<noteq> None \<longrightarrow> status job = ''done'')
       \<and> (error job \<noteq> None \<longrightarrow> status job = ''error'')
       \<and> (status job = ''running'' \<or> status job = ''done'' \<or> status job = ''error'')"
  using assms by (cases p) (auto simp: fresh_job_def final_def)

lemma runner_job:
  assumes "consistent s" and "threads s j = Some p" and "runner j p s = Some s'"
    and "JOBS s j = Some job"
  shows "JOBS s' j = Some (case p of
            Set_status_done path \<Rightarrow> job\<lparr>status := ''done''\<rparr>
          | Set_result path \<Rightarrow> job\<lparr>result := Some (path_name path)\<rparr>
          | Set_status_error e \<Rightarrow> job\<lparr>status := ''error''\<rparr>
          | Set_error e \<Rightarrow> job\<lparr>error := Some (str_exn e)\<rparr>
          | _ \<Rightarrow> job)"
  using assms(3,4) by (cases p) (auto simp: set_item_def split: option.splits if_splits)

lemma runner_other:
  assumes "runner k p s = Some s'" and "k \<noteq> j"
  shows "JOBS s' j = JOBS s j" and "threads s' j = threads s j"
  using assms by (cases p; auto simp: set_item_def split: option.splits if_splits)+

lemma fire_job:
  assumes "consistent s" and "fire l s = Some s'" and "JOBS s j = Some job"
  shows "JOBS s' j = Some job
       \<or> (\<exists>p. l = Runner j \<and> threads s j = Some p \<and> runner j p s = Some s')"
proof (cases l)
  case (Generate t k)
  with assms show ?thesis by (auto simp: generate_def Let_def split: if_splits)
next
  case (Print k tx)
  with assms show ?thesis by (auto split: if_splits)
next
  case (Pipeline k outcome)
  with assms show ?thesis by (auto split: if_splits)
next
  case (Runner k)
  with assms(2) obtain p where p: "threads s k = Some p" "runner k p s = Some s'"
    by (auto split: option.splits)
  show ?thesis
  proof (cases "k = j")
    case True
    with p Runner show ?thesis by simp
  next
    case False
    from runner_other(1) [OF p(2) False] assms(3) show ?thesis by simp
  qed
next
  case (Connect c k)
  with assms show ?thesis by (auto split: if_splits sum.splits)
next
  case (Next c)
  with assms obtain st r st' s1 where es: "event_stream st s = (r, st', s1)"
    and s': "s' = s1\<lparr>streams := (streams s1)(c \<mapsto> st')\<rparr>"
    by (auto split: option.splits prod.splits)
  then show ?thesis using assms(3) event_stream_fields(1) [OF es] by simp
qed

text \<open>
  C5. In every reachable state and for every job of \<open>_JOBS\<close>: result and error are not
  both set, result is set only with status done and error only with status error, and
  any step leaves the status as it is or takes it from running to done or from running
  to error. The job stays in the map. (Reachable states are built with identifiers that
  are new at submission.)
\<close>

theorem job_state_invariant:
  assumes "reachable s" and "JOBS s j = Some job"
  shows "\<not> (result job \<noteq> None \<and> error job \<noteq> None)
       \<and> (result job \<noteq> None \<longrightarrow> status job = ''done'')
       \<and> (error job \<noteq> None \<longrightarrow> status job = ''error'')
       \<and> (status job = ''running'' \<or> status job = ''done'' \<or> status job = ''error'')
       \<and> (\<forall>l s'. fire l s = Some s' \<longrightarrow>
            (\<exists>job'. JOBS s' j = Some job' \<and>
               (status job' = status job
                \<or> (status job = ''running'' \<and> (status job' = ''done'' \<or> status job' = ''error'')))))"
proof -
  from reachable_invariant [OF assms(1)] have c: "consistent s" by (simp add: invariant_def)
  from consistent_known [OF c assms(2)] obtain p where p: "threads s j = Some p" "job_at p job"
    by blast
  have step: "\<exists>job'. JOBS s' j = Some job' \<and>
               (status job' = status job
                \<or> (status job = ''running'' \<and> (status job' = ''done'' \<or> status job' = ''error'')))"
    if f: "fire l s = Some s'" for l s'
  proof -
    from fire_job [OF c f assms(2)] show ?thesis
    proof
      assume "JOBS s' j = Some job"
      then show ?thesis by simp
    next
      assume "\<exists>p. l = Runner j \<and> threads s j = Some p \<and> runner j p s = Some s'"
      with p have r: "runner j p s = Some s'" by auto
      from runner_job [OF c p(1) r assms(2)] p(2) show ?thesis
        by (cases p) (auto simp: fresh_job_def)
    qed
  qed
  from job_at_cases [OF p(2)] step show ?thesis by blast
qed

theorem job_state_invariant_witness:
  "\<exists>s s'. exec failed_job initial = Some s'
     \<and> exec (butlast (butlast (butlast failed_job))) initial = Some s
     \<and> JOBS s ''A'' = Some \<lparr>status = ''running'', result = None, error = None\<rparr>
     \<and> fire (Runner ''A'') s \<noteq> None
     \<and> JOBS (the (fire (Runner ''A'') s)) ''A''
          = Some \<lparr>status = ''error'', result = None, error = None\<rparr>
     \<and> JOBS s' ''A'' = Some \<lparr>status = ''error'', result = None, error = Some ''boom''\<rparr>
     \<and> \<not> (result (the (JOBS s' ''A'')) \<noteq> None \<and> error (the (JOBS s' ''A'')) \<noteq> None)"
proof -
  obtain s where s: "exec (butlast (butlast (butlast failed_job))) initial = Some s"
    and j: "JOBS s ''A'' = Some \<lparr>status = ''running'', result = None, error = None\<rparr>"
    and f: "fire (Runner ''A'') s \<noteq> None"
    and j1: "JOBS (the (fire (Runner ''A'') s)) ''A''
          = Some \<lparr>status = ''error'', result = None, error = None\<rparr>"
    by (simp add: failed_job_def initial_def generate_def strip_def is_space_def
        in_pipeline_def tee_write_def tee_def put_nowait_def maxsize_def goto_def set_item_def)
  obtain s' where s': "exec failed_job initial = Some s'"
    and j': "JOBS s' ''A'' = Some \<lparr>status = ''error'', result = None, error = Some ''boom''\<rparr>"
    by (simp add: failed_job_def initial_def generate_def strip_def is_space_def
        in_pipeline_def tee_write_def tee_def put_nowait_def maxsize_def goto_def set_item_def
        DONE_def)
  from job_state_invariant [OF exec_the [OF s'] j']
  have "\<not> (result (the (JOBS s' ''A'')) \<noteq> None \<and> error (the (JOBS s' ''A'')) \<noteq> None)"
    by (simp add: j')
  with s s' j f j1 j' show ?thesis by blast
qed


lemma runner_other_queue:
  assumes "runner k p s = Some s'" and "k \<noteq> j"
  shows "status_queues s' j = status_queues s j"
  using assms by (cases p) (auto simp: set_item_def split: option.splits if_splits)

lemma runner_queue:
  assumes "runner j p s = Some s'" and "status_queues s j = Some q"
  shows "status_queues s' j = Some q
       \<or> (\<exists>x. p = Put_done x \<and> status_queues s' j = Some (q @ [DONE]))"
  using assms by (cases p) (auto simp: set_item_def split: option.splits if_splits)

lemma fire_thread_exited:
  assumes "consistent s" and "threads s j = Some (Exited x)" and "fire l s = Some s'"
  shows "threads s' j = Some (Exited x)"
proof (cases l)
  case (Generate t k)
  from consistentD(1) [OF assms(1,2)] have "JOBS s j \<noteq> None" by auto
  with Generate assms(2,3) show ?thesis
    by (auto simp: generate_def Let_def split: if_splits)
next
  case (Print k tx)
  with assms show ?thesis by (auto split: if_splits)
next
  case (Pipeline k outcome)
  with assms(3) have "in_pipeline s k" and s': "s' = goto k (case outcome of Inr p \<Rightarrow> Set_status_done p | Inl e \<Rightarrow> Set_status_error e) s"
    by (auto split: if_splits)
  with assms(2) have "k \<noteq> j" by (auto simp: in_pipeline_def)
  with s' assms(2) show ?thesis by simp
next
  case (Runner k)
  with assms(3) obtain p where p: "threads s k = Some p" "runner k p s = Some s'"
    by (auto split: option.splits)
  with assms(2) have "k \<noteq> j" by auto
  from runner_other(2) [OF p(2) this] assms(2) show ?thesis by simp
next
  case (Connect c k)
  with assms show ?thesis by (auto split: if_splits sum.splits)
next
  case (Next c)
  with assms obtain st r st' s1 where es: "event_stream st s = (r, st', s1)"
    and s': "s' = s1\<lparr>streams := (streams s1)(c \<mapsto> st')\<rparr>"
    by (auto split: option.splits prod.splits)
  then show ?thesis using assms(2) event_stream_fields(2) [OF es] by simp
qed

lemma fire_queue_change:
  assumes "consistent s" and "fire l s = Some s'" and "status_queues s j = Some q"
    and "status_queues s' j = Some q'" and "q' \<noteq> q"
  shows "(l = Runner j \<and> q' = q @ [DONE] \<and> (\<exists>x. threads s j = Some (Put_done x)))
       \<or> (\<exists>k t. l = Print k t \<and> in_pipeline s k \<and> q' = q @ [strip t])
       \<or> (\<exists>c. l = Next c \<and> q = hd q # q')"
proof (cases l)
  case (Generate t k)
  with assms(2) have k: "JOBS s k = None" by (auto split: if_splits)
  from consistentD(2) [OF assms(1) consistent_unknown [OF assms(1) k]] assms(3)
  have "k \<noteq> j" by auto
  with Generate assms show ?thesis by (auto simp: generate_def Let_def split: if_splits)
next
  case (Print k tx)
  with assms show ?thesis by (auto simp: tee_write_queue split: if_splits)
next
  case (Pipeline k outcome)
  with assms show ?thesis by (auto split: if_splits)
next
  case (Runner k)
  with assms(2) obtain p where p: "threads s k = Some p" "runner k p s = Some s'"
    by (auto split: option.splits)
  show ?thesis
  proof (cases "k = j")
    case True
    with runner_queue [of j p s s' q] p assms(3,4,5) Runner show ?thesis by auto
  next
    case False
    from runner_other_queue [OF p(2) False] assms(3,4,5) show ?thesis by simp
  qed
next
  case (Connect c k)
  with assms show ?thesis by (auto split: if_splits sum.splits)
next
  case (Next c)
  with assms(2) obtain st r st' s1 where st: "streams s c = Some st"
    and es: "event_stream st s = (r, st', s1)"
    and s': "s' = s1\<lparr>streams := (streams s1)(c \<mapsto> st')\<rparr>"
    by (auto split: option.splits prod.splits)
  from es assms(3,4,5) s' have "q = hd q # q'"
    by (auto simp: event_stream_def iteration_def Let_def
        split: if_splits option.splits list.splits)
  with Next show ?thesis by blast
qed

text \<open>
  C6 (amended). An exception of the pipeline is caught in \<open>_run\<close>: it becomes status
  error and the error text \<open>str(e)\<close>, and no exception leaves \<open>_run\<close>; on a return the job
  becomes done with the name of the path. In both cases the thread then reaches the
  \<open>put\<close> of the marker. With room in the queue the \<open>put\<close> appends the marker at the
  end and the thread finishes; a finished thread neither puts nor prints again, so the
  runner puts the marker once, after every line of its own pipeline. The only other
  changes to a job's queue are a line printed by some job's pipeline, appended at the
  end, and an item taken by a stream.
\<close>

theorem runner_contains_failure:
  assumes "reachable s"
  shows "(in_pipeline s j \<longrightarrow>
            (\<exists>s1 s2 s3. fire (Pipeline j (Inl e)) s = Some s1 \<and> fire (Runner j) s1 = Some s2
               \<and> fire (Runner j) s2 = Some s3
               \<and> JOBS s3 j = Some \<lparr>status = ''error'', result = None, error = Some (str_exn e)\<rparr>
               \<and> threads s3 j = Some (Put_done None)))
       \<and> (in_pipeline s j \<longrightarrow>
            (\<exists>s1 s2 s3. fire (Pipeline j (Inr output_path)) s = Some s1 \<and> fire (Runner j) s1 = Some s2
               \<and> fire (Runner j) s2 = Some s3
               \<and> JOBS s3 j = Some \<lparr>status = ''done'', result = Some (path_name output_path), error = None\<rparr>
               \<and> threads s3 j = Some (Put_done None)))
       \<and> (\<forall>x. threads s j = Some (Put_done x) \<or> threads s j = Some (Exited x) \<longrightarrow> x = None)
       \<and> (\<forall>x. threads s j = Some (Put_done x) \<longrightarrow>
            (\<exists>q. status_queues s j = Some q \<and>
               (length q < maxsize \<longrightarrow>
                  (\<exists>s'. fire (Runner j) s = Some s' \<and> status_queues s' j = Some (q @ [DONE])
                        \<and> threads s' j = Some (Exited x)))))
       \<and> (\<forall>x. threads s j = Some (Exited x) \<longrightarrow>
            fire (Runner j) s = None \<and> (\<forall>t. fire (Print j t) s = None)
            \<and> (\<forall>l s'. fire l s = Some s' \<longrightarrow> threads s' j = Some (Exited x)))
       \<and> (\<forall>l s' q q'. fire l s = Some s' \<and> status_queues s j = Some q
              \<and> status_queues s' j = Some q' \<and> q' \<noteq> q \<longrightarrow>
             (l = Runner j \<and> q' = q @ [DONE] \<and> (\<exists>x. threads s j = Some (Put_done x)))
           \<or> (\<exists>k t. l = Print k t \<and> in_pipeline s k \<and> q' = q @ [strip t])
           \<or> (\<exists>c. l = Next c \<and> q = hd q # q'))"
proof -
  from reachable_invariant [OF assms] have c: "consistent s" by (simp add: invariant_def)
  have fresh: "JOBS s j = Some fresh_job" if "in_pipeline s j"
  proof -
    from in_pipelineD [OF that] obtain t where "threads s j = Some (Run_pipeline t)" by blast
    from consistentD(1) [OF c this] show ?thesis by auto
  qed
  have a: "in_pipeline s j \<longrightarrow>
            (\<exists>s1 s2 s3. fire (Pipeline j (Inl e)) s = Some s1 \<and> fire (Runner j) s1 = Some s2
               \<and> fire (Runner j) s2 = Some s3
               \<and> JOBS s3 j = Some \<lparr>status = ''error'', result = None, error = Some (str_exn e)\<rparr>
               \<and> threads s3 j = Some (Put_done None))"
    using fresh by (auto simp: set_item_def goto_def fresh_job_def)
  have b: "in_pipeline s j \<longrightarrow>
            (\<exists>s1 s2 s3. fire (Pipeline j (Inr output_path)) s = Some s1 \<and> fire (Runner j) s1 = Some s2
               \<and> fire (Runner j) s2 = Some s3
               \<and> JOBS s3 j = Some \<lparr>status = ''done'', result = Some (path_name output_path), error = None\<rparr>
               \<and> threads s3 j = Some (Put_done None))"
    using fresh by (auto simp: set_item_def goto_def fresh_job_def)
  have n: "\<forall>x. threads s j = Some (Put_done x) \<or> threads s j = Some (Exited x) \<longrightarrow> x = None"
  proof (intro allI impI)
    fix x assume "threads s j = Some (Put_done x) \<or> threads s j = Some (Exited x)"
    then show "x = None"
    proof
      assume "threads s j = Some (Put_done x)"
      from consistentD(1) [OF c this] show ?thesis by auto
    next
      assume "threads s j = Some (Exited x)"
      from consistentD(1) [OF c this] show ?thesis by auto
    qed
  qed
  have d: "\<forall>x. threads s j = Some (Put_done x) \<longrightarrow>
            (\<exists>q. status_queues s j = Some q \<and>
               (length q < maxsize \<longrightarrow>
                  (\<exists>s'. fire (Runner j) s = Some s' \<and> status_queues s' j = Some (q @ [DONE])
                        \<and> threads s' j = Some (Exited x))))"
  proof (intro allI impI)
    fix x assume p: "threads s j = Some (Put_done x)"
    from consistentD(1) [OF c p] obtain q where q: "status_queues s j = Some q" by blast
    with p show "\<exists>q. status_queues s j = Some q \<and>
               (length q < maxsize \<longrightarrow>
                  (\<exists>s'. fire (Runner j) s = Some s' \<and> status_queues s' j = Some (q @ [DONE])
                        \<and> threads s' j = Some (Exited x)))"
      by simp
  qed
  have x: "\<forall>x. threads s j = Some (Exited x) \<longrightarrow>
            fire (Runner j) s = None \<and> (\<forall>t. fire (Print j t) s = None)
            \<and> (\<forall>l s'. fire l s = Some s' \<longrightarrow> threads s' j = Some (Exited x))"
  proof (intro allI impI conjI)
    fix x assume "threads s j = Some (Exited x)"
    then show "fire (Runner j) s = None" by simp
  next
    fix x t assume "threads s j = Some (Exited x)"
    then show "fire (Print j t) s = None" by (simp add: in_pipeline_def)
  next
    fix x l s' assume "threads s j = Some (Exited x)" "fire l s = Some s'"
    then show "threads s' j = Some (Exited x)" by (rule fire_thread_exited [OF c])
  qed
  have q: "\<forall>l s' q q'. fire l s = Some s' \<and> status_queues s j = Some q
              \<and> status_queues s' j = Some q' \<and> q' \<noteq> q \<longrightarrow>
             (l = Runner j \<and> q' = q @ [DONE] \<and> (\<exists>x. threads s j = Some (Put_done x)))
           \<or> (\<exists>k t. l = Print k t \<and> in_pipeline s k \<and> q' = q @ [strip t])
           \<or> (\<exists>c. l = Next c \<and> q = hd q # q')"
  proof (intro allI impI)
    fix l s' q q'
    assume h: "fire l s = Some s' \<and> status_queues s j = Some q
              \<and> status_queues s' j = Some q' \<and> q' \<noteq> q"
    then have "fire l s = Some s'" "status_queues s j = Some q" "status_queues s' j = Some q'"
      "q' \<noteq> q" by simp_all
    then show "(l = Runner j \<and> q' = q @ [DONE] \<and> (\<exists>x. threads s j = Some (Put_done x)))
           \<or> (\<exists>k t. l = Print k t \<and> in_pipeline s k \<and> q' = q @ [strip t])
           \<or> (\<exists>c. l = Next c \<and> q = hd q # q')"
      by (rule fire_queue_change [OF c])
  qed
  show ?thesis by (intro conjI a b n d x q)
qed


theorem runner_contains_failure_witness:
  "\<exists>s s'. exec (butlast failed_job) initial = Some s
     \<and> threads s ''A'' = Some (Put_done None)
     \<and> JOBS s ''A'' = Some \<lparr>status = ''error'', result = None, error = Some ''boom''\<rparr>
     \<and> status_queues s ''A'' = Some [''step 1'']
     \<and> fire (Runner ''A'') s = Some s'
     \<and> status_queues s' ''A'' = Some [''step 1'', DONE]
     \<and> threads s' ''A'' = Some (Exited None)"
proof -
  obtain s where s: "exec (butlast failed_job) initial = Some s"
    and t: "threads s ''A'' = Some (Put_done None)"
    and j: "JOBS s ''A'' = Some \<lparr>status = ''error'', result = None, error = Some ''boom''\<rparr>"
    and q: "status_queues s ''A'' = Some [''step 1'']"
    by (simp add: failed_job_def initial_def generate_def strip_def is_space_def
        in_pipeline_def tee_write_def tee_def put_nowait_def maxsize_def goto_def set_item_def)
  from runner_contains_failure [OF exec_the [OF s], of "''A''"] t q
  obtain s' where "fire (Runner ''A'') s = Some s'"
    "status_queues s' ''A'' = Some [''step 1'', DONE]" "threads s' ''A'' = Some (Exited None)"
    by (auto simp: maxsize_def)
  with s t j q show ?thesis by blast
qed

lemma tee_write_funpow_fields [simp]:
  "JOBS ((tee_write t ^^ n) s) = JOBS s"
  "threads ((tee_write t ^^ n) s) = threads s"
  "streams ((tee_write t ^^ n) s) = streams s"
  by (induction n) simp_all

lemma in_pipeline_tee_write [simp]: "in_pipeline (tee_write t s) j = in_pipeline s j"
  by (simp add: in_pipeline_def)

lemma exec_prints:
  "in_pipeline s j \<Longrightarrow> exec (replicate n (Print j t)) s = Some ((tee_write t ^^ n) s)"
proof (induction n arbitrary: s)
  case 0
  show ?case by simp
next
  case (Suc n)
  then show ?case by (simp add: funpow_swap1)
qed

lemma queue_after_prints:
  assumes "strip t \<noteq> []" and "status_queues s j = Some q"
  shows "status_queues ((tee_write t ^^ n) s) j
         = Some (q @ replicate (min n (maxsize - length q)) (strip t))"
proof (induction n)
  case 0
  show ?case using assms(2) by simp
next
  case (Suc n)
  let ?m = "min n (maxsize - length q)"
  show ?case
  proof (cases "length q + ?m < maxsize")
    case True
    then have "min (Suc n) (maxsize - length q) = Suc ?m" by auto
    with True Suc assms(1) show ?thesis
      by (simp add: tee_write_queue replicate_append_same)
  next
    case False
    then have "min (Suc n) (maxsize - length q) = ?m" by auto
    with False Suc assms(1) show ?thesis by (simp add: tee_write_queue)
  qed
qed

text \<open>
  The marker is not always the last item, and it is not put unconditionally: a line
  that another job prints later stands behind it, and on a queue that is full the
  blocking \<open>put\<close> cannot proceed.
\<close>

theorem runner_contains_failure_counterexample:
  "map_option (\<lambda>s. (threads s ''A'', status_queues s ''A'')) (exec overtaken initial)
     = Some (Some (Exited None), Some [''__DONE__'', ''step 1''])
   \<and> map_option (\<lambda>s. (threads s ''A'', map_option length (status_queues s ''A'')))
       (exec flooded initial) = Some (Some (Put_done None), Some 500)
   \<and> exec (flooded @ [Runner ''A'']) initial = None"
proof -
  have a: "map_option (\<lambda>s. (threads s ''A'', status_queues s ''A'')) (exec overtaken initial)
     = Some (Some (Exited None), Some [''__DONE__'', ''step 1''])"
    by (simp add: overtaken_def initial_def generate_def strip_def is_space_def
        in_pipeline_def tee_write_def tee_def put_nowait_def maxsize_def goto_def set_item_def
        DONE_def)
  define s0 where "s0 = snd (generate ''bats'' ''A'' initial)"
  have g: "exec [Generate ''bats'' ''A''] initial = Some s0"
    by (simp add: s0_def initial_def)
  have s0: "in_pipeline s0 ''A''" "status_queues s0 ''A'' = Some []"
    "JOBS s0 ''A'' = Some \<lparr>status = ''running'', result = None, error = None\<rparr>"
    "threads s0 ''A'' = Some (Run_pipeline ''bats'')"
    by (simp_all add: s0_def initial_def generate_def strip_def is_space_def in_pipeline_def)
  define s1 where "s1 = (tee_write ''x'' ^^ 500) s0"
  have x: "strip ''x'' = ''x''" by (simp add: strip_def is_space_def)
  have p: "exec (replicate 500 (Print ''A'' ''x'')) s0 = Some s1"
    unfolding s1_def by (rule exec_prints [OF s0(1)])
  have q1: "status_queues s1 ''A'' = Some (replicate 500 ''x'')"
    unfolding s1_def using queue_after_prints [of "''x''" s0 "''A''" "[]" 500] s0(2) x
    by (simp add: maxsize_def)
  have s1: "JOBS s1 ''A'' = Some \<lparr>status = ''running'', result = None, error = None\<rparr>"
    "threads s1 ''A'' = Some (Run_pipeline ''bats'')"
    by (simp_all add: s1_def s0)
  define s2 where "s2 = the (exec [Pipeline ''A'' (Inl (Exception ''boom'')), Runner ''A'', Runner ''A''] s1)"
  have e2: "exec [Pipeline ''A'' (Inl (Exception ''boom'')), Runner ''A'', Runner ''A''] s1 = Some s2"
    unfolding s2_def by (simp add: in_pipeline_def s1 set_item_def goto_def)
  have s2: "threads s2 ''A'' = Some (Put_done None)" "status_queues s2 ''A'' = Some (replicate 500 ''x'')"
    unfolding s2_def by (simp_all add: in_pipeline_def s1 q1 set_item_def goto_def)
  have f: "exec flooded initial = Some s2"
    by (simp only: flooded_def exec_append g p e2 option.case)
  have b: "map_option (\<lambda>s. (threads s ''A'', map_option length (status_queues s ''A'')))
       (exec flooded initial) = Some (Some (Put_done None), Some 500)"
    by (simp add: f s2)
  have "fire (Runner ''A'') s2 = None" by (simp add: s2 maxsize_def)
  then have c: "exec (flooded @ [Runner ''A'']) initial = None"
    by (simp only: exec_append f option.case exec.simps)
  from a b c show ?thesis by (intro conjI)
qed


lemma marker_ok_queue:
  "marker_ok s \<Longrightarrow> status_queues s j = Some q \<Longrightarrow> DONE \<in> set q \<Longrightarrow> \<exists>x. threads s j = Some (Exited x)"
  unfolding marker_ok_def by blast

lemma marker_ok_sent:
  "marker_ok s \<Longrightarrow> streams s c = Some st \<Longrightarrow> list_all final_event (sent st)"
  unfolding marker_ok_def by blast

lemma marker_okI:
  assumes "\<And>j q. status_queues s j = Some q \<Longrightarrow> DONE \<in> set q \<Longrightarrow> \<exists>x. threads s j = Some (Exited x)"
    and "\<And>c st. streams s c = Some st \<Longrightarrow> list_all final_event (sent st)"
  shows "marker_ok s"
  unfolding marker_ok_def using assms by blast

lemma event_stream_final:
  assumes "consistent s" and "marker_ok s" and "streams s c = Some st"
    and "event_stream st s = (r, st', s')"
  shows "list_all final_event (sent st')"
proof -
  have old: "list_all final_event (sent st)" by (rule marker_ok_sent [OF assms(2,3)])
  show ?thesis
  proof (cases "stream_state st = CLOSED")
    case True
    with assms(4) old show ?thesis by (simp add: event_stream_def)
  next
    case open_stream: False
    show ?thesis
    proof (cases "status_queues s (stream_job st)")
      case None
      with assms(4) old open_stream show ?thesis by (auto simp: event_stream_def)
    next
      case (Some q)
      show ?thesis
      proof (cases q)
        case Nil
        with assms(4) old open_stream Some show ?thesis
          by (auto simp: event_stream_def iteration_def resumed_events_def final_event_def)
      next
        case (Cons line rest)
        show ?thesis
        proof (cases "line = DONE")
          case False
          with assms(4) old open_stream Some Cons show ?thesis
            by (auto simp: event_stream_def iteration_def resumed_events_def final_event_def Let_def)
        next
          case True
          with Some Cons have "DONE \<in> set q" by simp
          from marker_ok_queue [OF assms(2) Some this] obtain x
            where x: "threads s (stream_job st) = Some (Exited x)" by blast
          from consistentD(1) [OF assms(1) x] obtain job
            where job: "JOBS s (stream_job st) = Some job" "final job" by auto
          from job(2) have "final \<lparr>status = status job, result = result job, error = error job\<rparr>"
            by (simp add: final_def)
          with assms(4) old open_stream Some Cons True job(1) show ?thesis
            by (auto simp: event_stream_def iteration_def resumed_events_def final_event_def Let_def)
        qed
      qed
    qed
  qed
qed

lemma marker_ok_fire:
  assumes "consistent s" and "marker_ok s" and "fire l s = Some s'" and "\<not> prints_marker l"
  shows "marker_ok s'"
proof (cases l)
  case (Generate t k)
  show ?thesis
  proof (cases "strip t = []")
    case True
    with Generate assms show ?thesis by (auto simp: generate_def split: if_splits)
  next
    case False
    with Generate assms(3) have k: "JOBS s k = None"
      and s': "s' = s\<lparr>JOBS := (JOBS s)(k \<mapsto> \<lparr>status = ''running'', result = None, error = None\<rparr>),
                 status_queues := (status_queues s)(k \<mapsto> []),
                 threads := (threads s)(k \<mapsto> Run_pipeline (strip t))\<rparr>"
      by (auto simp: generate_def Let_def split: if_splits)
    show ?thesis
    proof (rule marker_okI)
      fix j q assume "status_queues s' j = Some q" "DONE \<in> set q"
      then show "\<exists>x. threads s' j = Some (Exited x)"
        using s' marker_ok_queue [OF assms(2), of j q] by (cases "j = k") auto
    next
      fix c st assume "streams s' c = Some st"
      then show "list_all final_event (sent st)" using s' marker_ok_sent [OF assms(2)] by simp
    qed
  qed
next
  case (Print k t)
  with assms(3,4) have s': "s' = tee_write t s" and nm: "strip t \<noteq> DONE"
    by (auto simp: prints_marker_def split: if_splits)
  show ?thesis
  proof (rule marker_okI)
    fix j q assume q: "status_queues s' j = Some q" "DONE \<in> set q"
    then obtain q0 where q0: "status_queues s j = Some q0" "DONE \<in> set q0"
      using s' nm by (auto simp: tee_write_queue split: if_splits)
    from marker_ok_queue [OF assms(2) q0] show "\<exists>x. threads s' j = Some (Exited x)"
      using s' by simp
  next
    fix c st assume "streams s' c = Some st"
    then show "list_all final_event (sent st)" using s' marker_ok_sent [OF assms(2)] by simp
  qed
next
  case (Pipeline k outcome)
  with assms(3) have ip: "in_pipeline s k"
    and s': "s' = goto k (case outcome of Inr p \<Rightarrow> Set_status_done p | Inl e \<Rightarrow> Set_status_error e) s"
    by (auto split: if_splits)
  show ?thesis
  proof (rule marker_okI)
    fix j q assume q: "status_queues s' j = Some q" "DONE \<in> set q"
    with s' have "status_queues s j = Some q" by simp
    from marker_ok_queue [OF assms(2) this q(2)] obtain x where x: "threads s j = Some (Exited x)"
      by blast
    with ip have "k \<noteq> j" by (auto simp: in_pipeline_def)
    with x s' show "\<exists>x. threads s' j = Some (Exited x)" by simp
  next
    fix c st assume "streams s' c = Some st"
    then show "list_all final_event (sent st)" using s' marker_ok_sent [OF assms(2)] by simp
  qed
next
  case (Runner k)
  with assms(3) obtain p where p: "threads s k = Some p" "runner k p s = Some s'"
    by (auto split: option.splits)
  have st: "streams s' = streams s"
    using p(2) by (cases p) (auto simp: set_item_def split: option.splits if_splits)
  show ?thesis
  proof (rule marker_okI)
    fix j q assume q: "status_queues s' j = Some q" "DONE \<in> set q"
    show "\<exists>x. threads s' j = Some (Exited x)"
    proof (cases "k = j")
      case False
      from runner_other_queue [OF p(2) False] runner_other(2) [OF p(2) False] q
        marker_ok_queue [OF assms(2), of j q]
      show ?thesis by simp
    next
      case True
      from consistentD(1) [OF assms(1) p(1)] True obtain q0 where q0: "status_queues s j = Some q0"
        by blast
      from runner_queue [of j p s s' q0] p(2) True q0 q(1)
      consider "q = q0" | x where "p = Put_done x" "q = q0 @ [DONE]" by auto
      then show ?thesis
      proof cases
        case 1
        with q q0 marker_ok_queue [OF assms(2), of j q0] obtain x where "threads s j = Some (Exited x)"
          by blast
        with p True have "runner j (Exited x) s = Some s'" by simp
        then show ?thesis by simp
      next
        case 2
        with p(2) True show ?thesis by (auto split: option.splits if_splits)
      qed
    qed
  next
    fix c st' assume "streams s' c = Some st'"
    then show "list_all final_event (sent st')" using st marker_ok_sent [OF assms(2)] by simp
  qed
next
  case (Connect c k)
  show ?thesis
  proof (rule marker_okI)
    fix j q assume q: "status_queues s' j = Some q" "DONE \<in> set q"
    with Connect assms(3) marker_ok_queue [OF assms(2), of j q]
    show "\<exists>x. threads s' j = Some (Exited x)" by (auto split: if_splits sum.splits)
  next
    fix c' st assume "streams s' c' = Some st"
    with Connect assms(3) marker_ok_sent [OF assms(2), of c' st]
    show "list_all final_event (sent st)"
      by (auto simp: status_stream_def split: if_splits)
  qed
next
  case (Next c)
  with assms(3) obtain st0 r st1 s1 where c: "streams s c = Some st0"
    and es: "event_stream st0 s = (r, st1, s1)"
    and s': "s' = s1\<lparr>streams := (streams s1)(c \<mapsto> st1)\<rparr>"
    by (auto split: option.splits prod.splits)
  show ?thesis
  proof (rule marker_okI)
    fix j q assume q: "status_queues s' j = Some q" "DONE \<in> set q"
    with s' have q1: "status_queues s1 j = Some q" by simp
    from es q1 q(2) obtain q0 where "status_queues s j = Some q0" "DONE \<in> set q0"
      by (auto simp: event_stream_def iteration_def Let_def
          split: if_splits option.splits list.splits)
    from marker_ok_queue [OF assms(2) this] show "\<exists>x. threads s' j = Some (Exited x)"
      using s' event_stream_fields(2) [OF es] by simp
  next
    fix c' st assume a: "streams s' c' = Some st"
    show "list_all final_event (sent st)"
    proof (cases "c' = c")
      case True
      with a s' have "st = st1" by simp
      with event_stream_final [OF assms(1,2) c es] show ?thesis by simp
    next
      case False
      with a s' event_stream_fields(3) [OF es] have "streams s c' = Some st" by simp
      from marker_ok_sent [OF assms(2) this] show ?thesis .
    qed
  qed
qed

lemma marker_ok_exec:
  assumes "invariant s" and "marker_ok s"
    and "exec ls s = Some s'" and "\<not> list_ex prints_marker ls"
  shows "marker_ok s'"
  using assms
proof (induction ls arbitrary: s)
  case Nil
  then show ?case by simp
next
  case (Cons l ls)
  from Cons.prems(3) obtain s1 where f: "fire l s = Some s1" and e: "exec ls s1 = Some s'"
    by (auto split: option.splits)
  from Cons.prems(1) have c: "consistent s" by (simp add: invariant_def)
  from Cons.prems(4) have nl: "\<not> prints_marker l" and nls: "\<not> list_ex prints_marker ls" by simp_all
  show ?case
    by (rule Cons.IH [OF invariant_fire [OF Cons.prems(1) f]
        marker_ok_fire [OF c Cons.prems(2) f nl] e nls])
qed

lemma quiet_complete_final:
  assumes "exec ls initial = Some s" and "\<not> list_ex prints_marker ls"
    and "streams s c = Some st" and "Complete a b d \<in> set (sent st)"
  shows "final \<lparr>status = a, result = b, error = d\<rparr>"
proof -
  have "marker_ok initial" by (simp add: marker_ok_def initial_def)
  from marker_ok_exec [OF reachable_invariant [OF reachable.start] this assms(1,2)]
  have "list_all final_event (sent st)" using assms(3) by (rule marker_ok_sent)
  with assms(4) have "final_event (Complete a b d)" by (simp add: list_all_iff)
  then show ?thesis by (simp add: final_event_def)
qed

lemma exited_final:
  assumes "consistent s" and "threads s j = Some (Exited x)" and "JOBS s j = Some job"
  shows "final job" and "fire l s = Some s' \<Longrightarrow> JOBS s' j = Some job"
proof -
  from consistentD(1) [OF assms(1,2)] assms(3) show "final job" by auto
  assume f: "fire l s = Some s'"
  from fire_job [OF assms(1) f assms(3)] assms(2) show "JOBS s' j = Some job" by auto
qed

text \<open>
  C7. For an unknown identifier \<open>status_stream\<close> answers 404 and opens no stream. For a
  known one, each resumption of the stream that is not closed sends a keepalive when the
  queue is empty (the wait timed out), a log event for an ordinary line, and for the
  marker one \<open>complete\<close> event with the job's status, result and error, after which the
  stream is closed and sends nothing more. So a stream has sent no \<open>complete\<close> event
  while it is open and exactly one, its last event, once closed. Once a job's thread has
  finished, the job's entry is final and no step changes it; and in an execution where
  no pipeline prints the marker text, every \<open>complete\<close> event carries a final entry.
\<close>

theorem status_stream_machine:
  "(JOBS s j = None \<longrightarrow>
      status_stream j s = Inl (Json 404 ''error'' ''Unknown job.'')
      \<and> (streams s c = None \<longrightarrow> fire (Connect c j) s = Some s))
   \<and> (JOBS s j \<noteq> None \<longrightarrow>
      status_stream j s = Inr \<lparr>stream_job = j, stream_state = NOT_STARTED, sent = []\<rparr>)
   \<and> (reachable s \<and> streams s c = Some st \<and> stream_state st \<noteq> CLOSED \<longrightarrow>
      (\<exists>q job. status_queues s (stream_job st) = Some q \<and> JOBS s (stream_job st) = Some job
         \<and> (q = [] \<longrightarrow>
              event_stream st s
                = (Yield Keepalive,
                   st\<lparr>stream_state := AWAIT, sent := sent st @ [Keepalive]\<rparr>, s))
         \<and> (\<forall>line rest. q = line # rest \<and> line \<noteq> DONE \<longrightarrow>
              event_stream st s
                = (Yield (Log line),
                   st\<lparr>stream_state := AWAIT, sent := sent st @ [Log line]\<rparr>,
                   s\<lparr>status_queues := (status_queues s)(stream_job st \<mapsto> rest)\<rparr>))
         \<and> (\<forall>rest. q = DONE # rest \<longrightarrow>
              event_stream st s
                = (Yield (Complete (status job) (result job) (error job)),
                   st\<lparr>stream_state := CLOSED,
                      sent := sent st @ [Complete (status job) (result job) (error job)]\<rparr>,
                   s\<lparr>status_queues := (status_queues s)(stream_job st \<mapsto> rest)\<rparr>))))
   \<and> (stream_state st = CLOSED \<longrightarrow> event_stream st s = (StopIteration, st, s))
   \<and> (reachable s \<and> streams s c = Some st \<longrightarrow>
      (stream_state st \<noteq> CLOSED \<longrightarrow> \<not> list_ex is_complete (sent st))
      \<and> (stream_state st = CLOSED \<longrightarrow>
           (\<exists>before a b d. sent st = before @ [Complete a b d] \<and> \<not> list_ex is_complete before)))
   \<and> (reachable s \<and> threads s j = Some (Exited x) \<and> JOBS s j = Some job \<longrightarrow>
      final job \<and> (\<forall>l s'. fire l s = Some s' \<longrightarrow> JOBS s' j = Some job))
   \<and> (exec ls initial = Some s \<and> \<not> list_ex prints_marker ls \<and> streams s c = Some st
        \<and> Complete a b d \<in> set (sent st) \<longrightarrow>
      final \<lparr>status = a, result = b, error = d\<rparr>)"
proof (intro conjI impI)
  assume "JOBS s j = None"
  then show "status_stream j s = Inl (Json 404 ''error'' ''Unknown job.'')"
    by (simp add: status_stream_def)
next
  assume "JOBS s j = None" "streams s c = None"
  then show "fire (Connect c j) s = Some s" by (simp add: status_stream_def)
next
  assume "JOBS s j \<noteq> None"
  then show "status_stream j s = Inr \<lparr>stream_job = j, stream_state = NOT_STARTED, sent = []\<rparr>"
    by (simp add: status_stream_def)
next
  assume h: "reachable s \<and> streams s c = Some st \<and> stream_state st \<noteq> CLOSED"
  with reachable_invariant [of s] have c: "consistent s" and ok: "stream_ok s st"
    by (auto simp: invariant_def)
  from ok obtain job where job: "JOBS s (stream_job st) = Some job" by (auto simp: stream_ok_def)
  from consistent_known [OF c job] obtain q where q: "status_queues s (stream_job st) = Some q"
    by blast
  from h q job have
    "(q = [] \<longrightarrow>
        event_stream st s
          = (Yield Keepalive, st\<lparr>stream_state := AWAIT, sent := sent st @ [Keepalive]\<rparr>, s))
     \<and> (\<forall>line rest. q = line # rest \<and> line \<noteq> DONE \<longrightarrow>
        event_stream st s
          = (Yield (Log line),
             st\<lparr>stream_state := AWAIT, sent := sent st @ [Log line]\<rparr>,
             s\<lparr>status_queues := (status_queues s)(stream_job st \<mapsto> rest)\<rparr>))
     \<and> (\<forall>rest. q = DONE # rest \<longrightarrow>
        event_stream st s
          = (Yield (Complete (status job) (result job) (error job)),
             st\<lparr>stream_state := CLOSED,
                sent := sent st @ [Complete (status job) (result job) (error job)]\<rparr>,
             s\<lparr>status_queues := (status_queues s)(stream_job st \<mapsto> rest)\<rparr>))"
    by (simp add: event_stream_def iteration_def resumed_events_def Let_def)
  with q job show "\<exists>q job. status_queues s (stream_job st) = Some q \<and> JOBS s (stream_job st) = Some job
         \<and> (q = [] \<longrightarrow>
              event_stream st s
                = (Yield Keepalive,
                   st\<lparr>stream_state := AWAIT, sent := sent st @ [Keepalive]\<rparr>, s))
         \<and> (\<forall>line rest. q = line # rest \<and> line \<noteq> DONE \<longrightarrow>
              event_stream st s
                = (Yield (Log line),
                   st\<lparr>stream_state := AWAIT, sent := sent st @ [Log line]\<rparr>,
                   s\<lparr>status_queues := (status_queues s)(stream_job st \<mapsto> rest)\<rparr>))
         \<and> (\<forall>rest. q = DONE # rest \<longrightarrow>
              event_stream st s
                = (Yield (Complete (status job) (result job) (error job)),
                   st\<lparr>stream_state := CLOSED,
                      sent := sent st @ [Complete (status job) (result job) (error job)]\<rparr>,
                   s\<lparr>status_queues := (status_queues s)(stream_job st \<mapsto> rest)\<rparr>))"
    by blast
next
  assume "stream_state st = CLOSED"
  then show "event_stream st s = (StopIteration, st, s)" by (simp add: event_stream_def)
next
  assume h: "reachable s \<and> streams s c = Some st" and n: "stream_state st \<noteq> CLOSED"
  with reachable_invariant [of s] have "stream_ok s st" by (auto simp: invariant_def)
  with n show "\<not> list_ex is_complete (sent st)"
    by (cases "stream_state st") (auto simp: stream_ok_def)
next
  assume h: "reachable s \<and> streams s c = Some st" and n: "stream_state st = CLOSED"
  with reachable_invariant [of s] have "stream_ok s st" by (auto simp: invariant_def)
  with n have ne: "sent st \<noteq> []" and l: "is_complete (last (sent st))"
    and b: "\<not> list_ex is_complete (butlast (sent st))"
    by (auto simp: stream_ok_def)
  from l obtain a b' d where "last (sent st) = Complete a b' d"
    by (cases "last (sent st)") (auto simp: is_complete_def)
  with ne have "sent st = butlast (sent st) @ [Complete a b' d]"
    using append_butlast_last_id [of "sent st"] by simp
  with b show "\<exists>before a b d. sent st = before @ [Complete a b d] \<and> \<not> list_ex is_complete before"
    by blast
next
  assume h: "reachable s \<and> threads s j = Some (Exited x) \<and> JOBS s j = Some job"
  with reachable_invariant [of s] have c: "consistent s" by (auto simp: invariant_def)
  from h exited_final(1) [OF c, of j x job] show "final job" by blast
  from h exited_final(2) [OF c, of j x job]
  show "\<forall>l s'. fire l s = Some s' \<longrightarrow> JOBS s' j = Some job" by blast
next
  assume "exec ls initial = Some s \<and> \<not> list_ex prints_marker ls \<and> streams s c = Some st
        \<and> Complete a b d \<in> set (sent st)"
  then show "final \<lparr>status = a, result = b, error = d\<rparr>"
    using quiet_complete_final [of ls s c st a b d] by blast
qed

theorem status_stream_machine_witness:
  "\<exists>s st. exec (failed_job @ [Connect 0 ''A'', Next 0]) initial = Some s
     \<and> streams s 0 = Some st
     \<and> stream_state st = AWAIT \<and> sent st = [Log ''step 1'']
     \<and> status_queues s ''A'' = Some [DONE]
     \<and> event_stream st s
        = (Yield (Complete ''error'' None (Some ''boom'')),
           st\<lparr>stream_state := CLOSED,
              sent := [Log ''step 1'', Complete ''error'' None (Some ''boom'')]\<rparr>,
           s\<lparr>status_queues := (status_queues s)(''A'' \<mapsto> [])\<rparr>)
     \<and> status_stream ''Z'' s = Inl (Json 404 ''error'' ''Unknown job.'')"
proof -
  obtain s st where s: "exec (failed_job @ [Connect 0 ''A'', Next 0]) initial = Some s"
    and st: "streams s 0 = Some st"
    and f: "stream_state st = AWAIT" "sent st = [Log ''step 1'']" "stream_job st = ''A''"
    and q: "status_queues s ''A'' = Some [DONE]"
    and j: "JOBS s ''A'' = Some \<lparr>status = ''error'', result = None, error = Some ''boom''\<rparr>"
    and z: "JOBS s ''Z'' = None"
    by (simp add: failed_job_def initial_def generate_def strip_def is_space_def
        in_pipeline_def tee_write_def tee_def put_nowait_def maxsize_def goto_def set_item_def
        status_stream_def event_stream_def iteration_def DONE_def resumed_events_def)
  note t = status_stream_machine [of s _ 0 st _ _ "[]"]
  from t [of "''Z''"] z have nf: "status_stream ''Z'' s = Inl (Json 404 ''error'' ''Unknown job.'')"
    by blast
  from t [of "''A''"] exec_the [OF s] st f q j
  have "event_stream st s
        = (Yield (Complete ''error'' None (Some ''boom'')),
           st\<lparr>stream_state := CLOSED,
              sent := [Log ''step 1'', Complete ''error'' None (Some ''boom'')]\<rparr>,
           s\<lparr>status_queues := (status_queues s)(''A'' \<mapsto> [])\<rparr>)"
    by auto
  with s st f q nf show ?thesis by blast
qed

end
